theory Spec2Isabelle
  imports Main "HOL-Library.List_Lexorder" "HOL-Library.Multiset"
begin

section \<open>Strings and the data model of index.tsx\<close>

text \<open>
  A JavaScript string is a sequence of UTF-16 code units. The relational operators
  \<^verbatim>\<open><\<close>, \<^verbatim>\<open>>=\<close> on two strings compare them lexicographically by code unit, a proper
  prefix being smaller; this is the order of \<^theory_text>\<open>HOL-Library.List_Lexorder\<close> on
  \<open>nat list\<close>. \<open>js\<close> writes an ASCII literal.
\<close>

type_synonym jsstring = "nat list"

definition js :: "string \<Rightarrow> jsstring" where
  "js s = map of_char s"

text \<open>
  The Korean literals of the source, as code units. MUMYEONG is the literal of
  \<^verbatim>\<open>getMemberNameForSort\<close> for a missing member id (U+BB34 U+BA85, "no name");
  MIJIJEONG is the fallback of \<^verbatim>\<open>getMemberName\<close> (U+BBF8 U+C9C0 U+C815, "unspecified").
\<close>

definition MUMYEONG :: jsstring where
  "MUMYEONG = [47924, 47749]"

definition MIJIJEONG :: jsstring where
  "MIJIJEONG = [48120, 51648, 51221]"

text \<open>The ten income categories (\<^verbatim>\<open>INCOME_CATEGORIES\<close>), named by romanisation.\<close>

definition SIBILJO :: jsstring where \<comment> \<open>tithe\<close>
  "SIBILJO = [49901, 51068, 51312]"

definition GAMSA :: jsstring where \<comment> \<open>thanksgiving offering\<close>
  "GAMSA = [44048, 49324, 54732, 44552]"

definition GEONCHUK :: jsstring where \<comment> \<open>building fund\<close>
  "GEONCHUK = [44148, 52629, 54732, 44552]"

definition SEONGYO :: jsstring where \<comment> \<open>missions\<close>
  "SEONGYO = [49440, 44368, 54732, 44552]"

definition JUJEONG :: jsstring where \<comment> \<open>weekly offering\<close>
  "JUJEONG = [51452, 51221, 54732, 44552]"

definition JEOLGI :: jsstring where \<comment> \<open>seasonal offering\<close>
  "JEOLGI = [51208, 44592, 54732, 44552]"

definition SAENGIL :: jsstring where \<comment> \<open>birthday thanksgiving\<close>
  "SAENGIL = [49373, 51068, 44048, 49324]"

definition SIMBANG :: jsstring where \<comment> \<open>visitation thanksgiving\<close>
  "SIMBANG = [49900, 48169, 44048, 49324]"

definition ILCHEONBEONJE :: jsstring where \<comment> \<open>thousand-fold offering\<close>
  "ILCHEONBEONJE = [51068, 52380, 48264, 51228]"

definition GITA :: jsstring where \<comment> \<open>other\<close>
  "GITA = [44592, 53440]"

text \<open>
  \<^verbatim>\<open>interface Member\<close> and \<^verbatim>\<open>interface Transaction\<close>. The field names carry a prefix since
  \<open>id\<close> is taken in HOL. Optional fields are options (\<open>None\<close> is \<^verbatim>\<open>undefined\<close>).
  Identifiers and amounts are whole numbers (ids come from \<^verbatim>\<open>Date.now()\<close>, amounts from a
  number input with \<^verbatim>\<open>min="1"\<close>), modelled as \<open>int\<close>; an amount may still be any integer,
  since an imported snapshot is not validated.
\<close>

record Member =
  m_id :: int
  m_name :: jsstring
  m_position :: jsstring

datatype txtype = income | expense

record Transaction =
  tx_id :: int
  tx_type :: txtype
  tx_date :: jsstring
  tx_category :: jsstring
  tx_amount :: int
  tx_memberId :: "int option"
  tx_memo :: "jsstring option"

text \<open>The persistent state of \<^verbatim>\<open>App\<close>: the four \<^verbatim>\<open>usePersistentState\<close> cells.\<close>

record AppState =
  members :: "Member list"
  transactions :: "Transaction list"
  expenseCategories :: "jsstring list"
  password :: "jsstring option"

section \<open>Roster handlers and name resolution\<close>

text \<open>\<^verbatim>\<open>setMembers(prev => prev.filter(m => m.id !== id))\<close>\<close>

definition handleDeleteMember :: "int \<Rightarrow> AppState \<Rightarrow> AppState" where
  "handleDeleteMember i st = st\<lparr>members := filter (\<lambda>m. m_id m \<noteq> i) (members st)\<rparr>"

text \<open>
  \<^verbatim>\<open>members.find(m => m.id === id)?.name || FALLBACK\<close>: the first member with that id;
  no such member, or a member whose name is the empty string (falsy), gives the fallback.
\<close>

definition getMemberName :: "Member list \<Rightarrow> int option \<Rightarrow> jsstring" where
  "getMemberName ms i =
     (case find (\<lambda>m. Some (m_id m) = i) ms of
        None \<Rightarrow> MIJIJEONG
      | Some m \<Rightarrow> (if m_name m = [] then MIJIJEONG else m_name m))"

section \<open>The today split\<close>

record BalanceData =
  previousBalance :: int
  todaysChange :: int
  todaysBalance :: int

text \<open>One round of the first \<^verbatim>\<open>transactions.forEach\<close>; the pair is (previousBalance, todaysChange).\<close>

definition balanceStep :: "jsstring \<Rightarrow> Transaction \<Rightarrow> int \<times> int \<Rightarrow> int \<times> int" where
  "balanceStep todayStr tx acc =
     (let amount = (if tx_type tx = income then tx_amount tx else - tx_amount tx) in
      if tx_date tx < todayStr then (fst acc + amount, snd acc)
      else if tx_date tx = todayStr then (fst acc, snd acc + amount)
      else acc)"

definition balanceData :: "Transaction list \<Rightarrow> jsstring \<Rightarrow> BalanceData" where
  "balanceData txs todayStr =
     (let acc = fold (balanceStep todayStr) txs (0, 0) in
      \<lparr>previousBalance = fst acc, todaysChange = snd acc,
       todaysBalance = fst acc + snd acc\<rparr>)"

section \<open>The search dialog\<close>

datatype searchType = by_name | by_category

record SearchResult =
  sr_transactions :: "Transaction list"
  sr_total :: int

definition filteredTransactions :: "Transaction list \<Rightarrow> jsstring \<Rightarrow> jsstring \<Rightarrow> Transaction list" where
  "filteredTransactions txs startDate endDate =
     filter (\<lambda>tx. tx_date tx \<ge> startDate \<and> tx_date tx \<le> endDate) txs"

text \<open>\<^verbatim>\<open>result.reduce((sum, tx) => sum + tx.amount, 0)\<close>\<close>

definition reduceAmount :: "Transaction list \<Rightarrow> int" where
  "reduceAmount txs = foldl (\<lambda>sum tx. sum + tx_amount tx) 0 txs"

text \<open>
  \<open>nameQuery\<close> is a member id or the empty string (\<open>None\<close>); the result \<open>None\<close> is the
  source's \<^verbatim>\<open>null\<close>, returned when the name search is not the active one.
\<close>

definition nameSearchResult ::
  "Transaction list \<Rightarrow> searchType \<Rightarrow> int option \<Rightarrow> jsstring \<Rightarrow> jsstring \<Rightarrow> SearchResult option" where
  "nameSearchResult txs st nameQuery startDate endDate =
     (if st \<noteq> by_name \<or> nameQuery = None then None
      else
        let result = filter (\<lambda>tx. tx_memberId tx = nameQuery \<and> tx_type tx = income)
                       (filteredTransactions txs startDate endDate);
            total = reduceAmount result
        in Some \<lparr>sr_transactions = result, sr_total = total\<rparr>)"

section \<open>The host's Date object\<close>

text \<open>
  Time values are milliseconds since the epoch, as integers; \<open>None\<close> stands for the
  NaN of an invalid Date. The functions follow the abstract operations of ECMAScript
  (Day, TimeWithinDay, DayFromYear, YearFromTime, MonthFromTime, DateFromTime,
  WeekDay, MakeDay, MakeDate, TimeClip, LocalTime, UTC). The local time zone belongs to
  the host and is a parameter, see \<open>TimeZone\<close> below.
\<close>

definition msPerDay :: int where
  "msPerDay = 86400000"

definition Day :: "int \<Rightarrow> int" where
  "Day t = t div msPerDay"

definition TimeWithinDay :: "int \<Rightarrow> int" where
  "TimeWithinDay t = t mod msPerDay"

definition DaysInYear :: "int \<Rightarrow> int" where
  "DaysInYear y =
     (if y mod 4 \<noteq> 0 then 365 else if y mod 100 \<noteq> 0 then 366
      else if y mod 400 \<noteq> 0 then 365 else 366)"

definition DayFromYear :: "int \<Rightarrow> int" where
  "DayFromYear y =
     365 * (y - 1970) + (y - 1969) div 4 - (y - 1901) div 100 + (y - 1601) div 400"

text \<open>
  YearFromTime is the largest year whose first day is not after the day of \<open>t\<close>: the
  search \<open>yearUp\<close> walks up from a year that is not too large.
\<close>

function yearUp :: "int \<Rightarrow> int \<Rightarrow> int" where
  "yearUp d y = (if DayFromYear (y + 1) \<le> d then yearUp d (y + 1) else y)"
  by pat_completeness auto
termination
proof (relation "measure (\<lambda>(d, y). nat (d + 1 - DayFromYear (y + 1)))")
  show "wf (measure (\<lambda>(d, y). nat (d + 1 - DayFromYear (y + 1))))"
    by simp
next
  fix d y :: int
  assume le: "DayFromYear (y + 1) \<le> d"
  define z where "z = y + 1"
  have lin: "365 * x + a - b + c < 365 * (x + 1) + a' - b' + c'"
    if "a \<le> a'" "b' \<le> b + 1" "c \<le> c'"
    for a :: int and a' :: int and b :: int and b' :: int and c :: int and c' :: int and x :: int
    using that by presburger
  have a: "(z - 1969) div 4 \<le> (z - 1969 + 1) div 4"
    by (rule zdiv_mono1) simp_all
  have "(z - 1901 + 1) div 100 \<le> (z - 1901 + 100) div 100"
    by (rule zdiv_mono1) simp_all
  then have b: "(z - 1901 + 1) div 100 \<le> (z - 1901) div 100 + 1"
    by simp
  have c: "(z - 1601) div 400 \<le> (z - 1601 + 1) div 400"
    by (rule zdiv_mono1) simp_all
  have sh: "z + 1 - 1970 = z - 1970 + 1" "z + 1 - 1969 = z - 1969 + 1"
      "z + 1 - 1901 = z - 1901 + 1" "z + 1 - 1601 = z - 1601 + 1"
    by simp_all
  have "DayFromYear z < DayFromYear (z + 1)"
    unfolding DayFromYear_def sh by (rule lin [OF a b c])
  with le show "((d, y + 1), (d, y)) \<in> measure (\<lambda>(d, y). nat (d + 1 - DayFromYear (y + 1)))"
    by (simp add: z_def)
qed

definition YearFromDay :: "int \<Rightarrow> int" where
  "YearFromDay d = yearUp d (1970 + (if 0 \<le> d then d div 366 else d div 365))"

definition YearFromTime :: "int \<Rightarrow> int" where
  "YearFromTime t = YearFromDay (Day t)"

definition InLeapYear :: "int \<Rightarrow> int" where
  "InLeapYear t = (if DaysInYear (YearFromTime t) = 366 then 1 else 0)"

definition DayWithinYear :: "int \<Rightarrow> int" where
  "DayWithinYear t = Day t - DayFromYear (YearFromTime t)"

text \<open>The day within the year on which month \<open>m\<close> (0 to 11) begins; \<open>l\<close> is 1 in a leap year.\<close>

definition monthStart :: "int \<Rightarrow> int \<Rightarrow> int" where
  "monthStart l m =
     (if m = 0 then 0 else if m = 1 then 31 else if m = 2 then 59 + l
      else if m = 3 then 90 + l else if m = 4 then 120 + l else if m = 5 then 151 + l
      else if m = 6 then 181 + l else if m = 7 then 212 + l else if m = 8 then 243 + l
      else if m = 9 then 273 + l else if m = 10 then 304 + l else 334 + l)"

definition MonthFromTime :: "int \<Rightarrow> int" where
  "MonthFromTime t =
     (let dy = DayWithinYear t; l = InLeapYear t in
      if dy < 31 then 0 else if dy < 59 + l then 1 else if dy < 90 + l then 2
      else if dy < 120 + l then 3 else if dy < 151 + l then 4 else if dy < 181 + l then 5
      else if dy < 212 + l then 6 else if dy < 243 + l then 7 else if dy < 273 + l then 8
      else if dy < 304 + l then 9 else if dy < 334 + l then 10 else 11)"

definition DateFromTime :: "int \<Rightarrow> int" where
  "DateFromTime t = DayWithinYear t - monthStart (InLeapYear t) (MonthFromTime t) + 1"

definition WeekDay :: "int \<Rightarrow> int" where
  "WeekDay t = (Day t + 4) mod 7"

definition MakeDay :: "int \<Rightarrow> int \<Rightarrow> int \<Rightarrow> int" where
  "MakeDay year month date =
     (let ym = year + month div 12; mn = month mod 12 in
      DayFromYear ym + monthStart (if DaysInYear ym = 366 then 1 else 0) mn + date - 1)"

definition MakeDate :: "int \<Rightarrow> int \<Rightarrow> int" where
  "MakeDate day time = day * msPerDay + time"

definition TimeClip :: "int \<Rightarrow> int option" where
  "TimeClip t = (if \<bar>t\<bar> > 8640000000000000 then None else Some t)"

text \<open>
  The local time zone of the host. Its offset from UTC (in milliseconds) changes with
  the date where daylight saving is observed, so it is a function of time, in two
  readings as in ECMAScript: \<open>offsetAtInstant\<close> gives the offset in force at a UTC time
  value (LocalTZA(t, true), used by LocalTime), \<open>offsetAtLocal\<close> the offset the host
  chooses for a local time value (LocalTZA(t, false), used by UTC, which has to settle
  local times that a change of offset repeats or skips). Nothing is assumed about the
  two functions.
\<close>

record TimeZone =
  offsetAtInstant :: "int \<Rightarrow> int"
  offsetAtLocal :: "int \<Rightarrow> int"

definition LocalTime :: "TimeZone \<Rightarrow> int \<Rightarrow> int" where
  "LocalTime tz t = t + offsetAtInstant tz t"

definition UTC :: "TimeZone \<Rightarrow> int \<Rightarrow> int" where
  "UTC tz t = t - offsetAtLocal tz t"

text \<open>\<^verbatim>\<open>getFullYear()\<close>, \<^verbatim>\<open>getDate()\<close>, \<^verbatim>\<open>getDay()\<close> read the local time; \<^verbatim>\<open>setDate(dt)\<close> sets
  the local day of the month and keeps the local time of day.\<close>

definition getFullYear :: "TimeZone \<Rightarrow> int \<Rightarrow> int" where
  "getFullYear tz t = YearFromTime (LocalTime tz t)"

definition getDate :: "TimeZone \<Rightarrow> int \<Rightarrow> int" where
  "getDate tz t = DateFromTime (LocalTime tz t)"

definition getDay :: "TimeZone \<Rightarrow> int \<Rightarrow> int" where
  "getDay tz t = WeekDay (LocalTime tz t)"

definition setDate :: "TimeZone \<Rightarrow> int \<Rightarrow> int \<Rightarrow> int option" where
  "setDate tz t dt =
     (let lt = LocalTime tz t;
          newDate = MakeDate (MakeDay (YearFromTime lt) (MonthFromTime lt) dt) (TimeWithinDay lt)
      in TimeClip (UTC tz newDate))"

subsection \<open>Decimal digits\<close>

definition digitChar :: "int \<Rightarrow> nat" where
  "digitChar d = 48 + nat d"

definition pad2 :: "int \<Rightarrow> jsstring" where
  "pad2 n = [digitChar (n div 10 mod 10), digitChar (n mod 10)]"

definition pad3 :: "int \<Rightarrow> jsstring" where
  "pad3 n = [digitChar (n div 100 mod 10), digitChar (n div 10 mod 10), digitChar (n mod 10)]"

definition pad4 :: "int \<Rightarrow> jsstring" where
  "pad4 n = pad2 (n div 100) @ pad2 n"

definition pad6 :: "int \<Rightarrow> jsstring" where
  "pad6 n = pad2 (n div 10000) @ pad4 n"

text \<open>Number-to-string of an integer, as in \<^verbatim>\<open>today.getFullYear() + '-01-01'\<close>.\<close>

function natDigits :: "nat \<Rightarrow> jsstring" where
  "natDigits n = (if n < 10 then [48 + n] else natDigits (n div 10) @ [48 + n mod 10])"
  by pat_completeness auto
termination
  by (relation "measure id") auto

definition numberToString :: "int \<Rightarrow> jsstring" where
  "numberToString n = (if n < 0 then 45 # natDigits (nat (- n)) else natDigits (nat n))"

subsection \<open>toISOString and the parsing of YYYY-MM-DD\<close>

text \<open>
  \<^verbatim>\<open>toISOString()\<close> of a valid time value: the year has four digits from 0 to 9999 and
  a sign with six digits otherwise; the fields are those of UTC.
\<close>

definition isoYear :: "int \<Rightarrow> jsstring" where
  "isoYear y = (if 0 \<le> y \<and> y \<le> 9999 then pad4 y
                else (if y < 0 then 45 else 43) # pad6 \<bar>y\<bar>)"

definition toISOString :: "int \<Rightarrow> jsstring" where
  "toISOString t =
     isoYear (YearFromTime t) @ js ''-'' @ pad2 (MonthFromTime t + 1) @ js ''-''
       @ pad2 (DateFromTime t) @ js ''T'' @ pad2 (TimeWithinDay t div 3600000) @ js '':''
       @ pad2 (TimeWithinDay t div 60000 mod 60) @ js '':''
       @ pad2 (TimeWithinDay t div 1000 mod 60) @ js ''.'' @ pad3 (TimeWithinDay t mod 1000)
       @ js ''Z''"

definition isDigit :: "nat \<Rightarrow> bool" where
  "isDigit c = (48 \<le> c \<and> c \<le> 57)"

definition digitVal :: "nat \<Rightarrow> int" where
  "digitVal c = int c - 48"

definition DaysInMonth :: "int \<Rightarrow> int \<Rightarrow> int" where
  "DaysInMonth y m =
     (if m = 2 then (if DaysInYear y = 366 then 29 else 28)
      else if m = 4 \<or> m = 6 \<or> m = 9 \<or> m = 11 then 30 else 31)"

text \<open>
  \<^verbatim>\<open>new Date(s).getTime()\<close> for a date-only string: ECMAScript reads the form YYYY-MM-DD as
  midnight UTC of that day. A month outside 1 to 12 or a day outside the month gives
  NaN. Every other string is taken as an invalid date here: the entry forms and
  \<^verbatim>\<open>todayString\<close> produce only this form (or the empty string), and what else a host
  accepts is implementation-defined.
\<close>

definition Date_parse :: "jsstring \<Rightarrow> int option" where
  "Date_parse s =
     (case s of
        [y1, y2, y3, y4, h1, m1, m2, h2, d1, d2] \<Rightarrow>
          if isDigit y1 \<and> isDigit y2 \<and> isDigit y3 \<and> isDigit y4 \<and> h1 = 45
             \<and> isDigit m1 \<and> isDigit m2 \<and> h2 = 45 \<and> isDigit d1 \<and> isDigit d2
          then
            let y = 1000 * digitVal y1 + 100 * digitVal y2 + 10 * digitVal y3 + digitVal y4;
                m = 10 * digitVal m1 + digitVal m2;
                d = 10 * digitVal d1 + digitVal d2
            in if 1 \<le> m \<and> m \<le> 12 \<and> 1 \<le> d \<and> d \<le> DaysInMonth y m
               then TimeClip (MakeDate (MakeDay y (m - 1) d) 0)
               else None
          else None
      | _ \<Rightarrow> None)"

section \<open>The display feed: sorting and the running balance\<close>

text \<open>\<^verbatim>\<open>categoryOrder\<close>: the display order of the income categories, reversed.\<close>

definition categoryOrder :: "jsstring list" where
  "categoryOrder =
     [GITA, ILCHEONBEONJE, SIMBANG, SAENGIL, JEOLGI, JUJEONG, GAMSA, GEONCHUK, SEONGYO, SIBILJO]"

text \<open>\<^verbatim>\<open>Array.prototype.indexOf\<close>: the first position of the element, or -1.\<close>

fun indexOf :: "'a list \<Rightarrow> 'a \<Rightarrow> int" where
  "indexOf [] x = - 1"
| "indexOf (y # ys) x =
     (if y = x then 0 else (let i = indexOf ys x in if i = - 1 then - 1 else i + 1))"

definition effectiveIndex :: "jsstring \<Rightarrow> int" where
  "effectiveIndex category =
     (let i = indexOf categoryOrder category in
      if i = - 1 then int (length categoryOrder) else i)"

definition getMemberNameForSort :: "Member list \<Rightarrow> int option \<Rightarrow> jsstring" where
  "getMemberNameForSort ms memberId =
     (case memberId of
        None \<Rightarrow> MUMYEONG
      | Some i \<Rightarrow>
          (case find (\<lambda>m. m_id m = i) ms of
             None \<Rightarrow> MIJIJEONG
           | Some m \<Rightarrow> (if m_name m = [] then MIJIJEONG else m_name m)))"

text \<open>
  The comparator handed to \<^verbatim>\<open>sort\<close> in \<^verbatim>\<open>withBalance\<close>. The collation
  \<^verbatim>\<open>x.localeCompare(y, 'ko')\<close> belongs to the host and is the parameter \<open>lc\<close>. The result
  \<open>None\<close> is NaN: with an invalid date \<^verbatim>\<open>dateCompare\<close> is NaN, which differs from 0 and is
  returned.
\<close>

definition compareTx ::
  "(jsstring \<Rightarrow> jsstring \<Rightarrow> int) \<Rightarrow> Member list \<Rightarrow> Transaction \<Rightarrow> Transaction \<Rightarrow> int option" where
  "compareTx lc ms a b =
     (case (Date_parse (tx_date a), Date_parse (tx_date b)) of
        (Some ta, Some tb) \<Rightarrow>
          (let dateCompare = ta - tb;
               effectiveIndexA = effectiveIndex (tx_category a);
               effectiveIndexB = effectiveIndex (tx_category b);
               nameA = getMemberNameForSort ms (tx_memberId a);
               nameB = getMemberNameForSort ms (tx_memberId b);
               nameCompare = lc nameB nameA
           in if dateCompare \<noteq> 0 then Some dateCompare
              else if tx_type a \<noteq> tx_type b then Some (if tx_type a = income then - 1 else 1)
              else if tx_type a = income \<and> effectiveIndexA \<noteq> effectiveIndexB
                then Some (effectiveIndexA - effectiveIndexB)
              else if tx_type a = income \<and> nameCompare \<noteq> 0 then Some nameCompare
              else Some (tx_id a - tx_id b))
      | _ \<Rightarrow> None)"

text \<open>
  \<^verbatim>\<open>Array.prototype.sort\<close> with a comparator: a NaN result counts as 0 (SortCompare), and
  the sort is stable. For a consistent comparator the result is fixed by the language;
  it is computed here by stable insertion from the right. For an inconsistent comparator
  the language leaves the order to the host, and this is one such order.
\<close>

definition SortCompare :: "('a \<Rightarrow> 'a \<Rightarrow> int option) \<Rightarrow> 'a \<Rightarrow> 'a \<Rightarrow> int" where
  "SortCompare comparefn x y = (case comparefn x y of None \<Rightarrow> 0 | Some v \<Rightarrow> v)"

fun insertSorted :: "('a \<Rightarrow> 'a \<Rightarrow> int) \<Rightarrow> 'a \<Rightarrow> 'a list \<Rightarrow> 'a list" where
  "insertSorted c x [] = [x]"
| "insertSorted c x (y # ys) = (if c x y \<le> 0 then x # y # ys else y # insertSorted c x ys)"

definition Array_sort :: "('a \<Rightarrow> 'a \<Rightarrow> int option) \<Rightarrow> 'a list \<Rightarrow> 'a list" where
  "Array_sort comparefn xs = foldr (insertSorted (SortCompare comparefn)) xs []"

text \<open>\<^verbatim>\<open>{ ...tx, balance: runningBalance }\<close>\<close>

record TransactionWithBalance = Transaction +
  balance :: int

definition spreadWithBalance :: "Transaction \<Rightarrow> int \<Rightarrow> TransactionWithBalance" where
  "spreadWithBalance tx b = Transaction.extend tx (TransactionWithBalance.fields b)"

text \<open>The \<^verbatim>\<open>.map\<close> callback, with the captured \<^verbatim>\<open>runningBalance\<close> threaded through.\<close>

fun attachBalance :: "int \<Rightarrow> Transaction list \<Rightarrow> TransactionWithBalance list" where
  "attachBalance runningBalance [] = []"
| "attachBalance runningBalance (tx # txs) =
     (let runningBalance' =
            runningBalance + (if tx_type tx = income then tx_amount tx else - tx_amount tx) in
      spreadWithBalance tx runningBalance' # attachBalance runningBalance' txs)"

definition withBalance ::
  "(jsstring \<Rightarrow> jsstring \<Rightarrow> int) \<Rightarrow> Member list \<Rightarrow> Transaction list \<Rightarrow> TransactionWithBalance list" where
  "withBalance lc ms txs = rev (attachBalance 0 (Array_sort (compareTx lc ms) txs))"

text \<open>The time value of an entry's date (0 when the date does not parse).\<close>

definition timeOf :: "Transaction \<Rightarrow> int" where
  "timeOf tx = (case Date_parse (tx_date tx) of None \<Rightarrow> 0 | Some t \<Rightarrow> t)"

section \<open>Weekly and yearly windows\<close>

definition gyeongsangbiCategories :: "jsstring list" where
  "gyeongsangbiCategories = [JUJEONG, SIBILJO, GAMSA, SAENGIL, SIMBANG, ILCHEONBEONJE]"

text \<open>
  The breakdown object is a list of properties in insertion order. \<^verbatim>\<open>obj[k] += amount\<close>
  adds to an existing property; on a missing one it would store \<^verbatim>\<open>undefined + amount\<close>,
  which is NaN, in a new property.
\<close>

datatype jsnum = NaN | Num int

fun plusAssign :: "(jsstring \<times> jsnum) list \<Rightarrow> jsstring \<Rightarrow> int \<Rightarrow> (jsstring \<times> jsnum) list" where
  "plusAssign [] k amount = [(k, NaN)]"
| "plusAssign ((k', v) # kvs) k amount =
     (if k' = k then (k', (case v of NaN \<Rightarrow> NaN | Num n \<Rightarrow> Num (n + amount))) # kvs
      else (k', v) # plusAssign kvs k amount)"

text \<open>
  The mutable locals of the second \<^verbatim>\<open>transactions.forEach\<close>: \<open>w_income\<close> is
  \<^verbatim>\<open>weeklyIncome\<close>, \<open>y_income\<close> is \<^verbatim>\<open>yearlyIncome\<close>, \<open>w_breakdown\<close> is
  \<^verbatim>\<open>weeklyGyeongsangbiBreakdown\<close>, and so on.
\<close>

record Windows =
  w_income :: int
  w_expense :: int
  y_income :: int
  y_expense :: int
  w_breakdown :: "(jsstring \<times> jsnum) list"
  w_seongyo :: int
  w_geonchuk :: int

definition initialWindows :: Windows where
  "initialWindows =
     \<lparr>w_income = 0, w_expense = 0, y_income = 0, y_expense = 0,
      w_breakdown = map (\<lambda>cat. (cat, Num 0)) gyeongsangbiCategories,
      w_seongyo = 0, w_geonchuk = 0\<rparr>"

definition yearStep :: "jsstring \<Rightarrow> Transaction \<Rightarrow> Windows \<Rightarrow> Windows" where
  "yearStep yearStartStr tx acc =
     (if tx_date tx \<ge> yearStartStr then
        (if tx_type tx = income then acc\<lparr>y_income := y_income acc + tx_amount tx\<rparr>
         else acc\<lparr>y_expense := y_expense acc + tx_amount tx\<rparr>)
      else acc)"

definition weekStep :: "jsstring \<Rightarrow> Transaction \<Rightarrow> Windows \<Rightarrow> Windows" where
  "weekStep weekStartStr tx acc =
     (if tx_date tx \<ge> weekStartStr then
        (if tx_type tx = income then
           (let acc' = acc\<lparr>w_income := w_income acc + tx_amount tx\<rparr> in
            if tx_category tx \<in> set gyeongsangbiCategories
              then acc'\<lparr>w_breakdown := plusAssign (w_breakdown acc') (tx_category tx) (tx_amount tx)\<rparr>
            else if tx_category tx = SEONGYO
              then acc'\<lparr>w_seongyo := w_seongyo acc' + tx_amount tx\<rparr>
            else if tx_category tx = GEONCHUK
              then acc'\<lparr>w_geonchuk := w_geonchuk acc' + tx_amount tx\<rparr>
            else acc')
         else acc\<lparr>w_expense := w_expense acc + tx_amount tx\<rparr>)
      else acc)"

definition windowStep :: "jsstring \<Rightarrow> jsstring \<Rightarrow> Transaction \<Rightarrow> Windows \<Rightarrow> Windows" where
  "windowStep yearStartStr weekStartStr tx acc =
     weekStep weekStartStr tx (yearStep yearStartStr tx acc)"

text \<open>\<^verbatim>\<open>today.getFullYear() + '-01-01'\<close> and the week start, from the time value of today.\<close>

definition yearStartStr :: "TimeZone \<Rightarrow> int \<Rightarrow> jsstring" where
  "yearStartStr tz today = numberToString (getFullYear tz today) @ js ''-01-01''"

definition weekStartStr :: "TimeZone \<Rightarrow> int \<Rightarrow> jsstring option" where
  "weekStartStr tz today =
     (case setDate tz today (getDate tz today - getDay tz today) of
        None \<Rightarrow> None
      | Some weekStart \<Rightarrow> Some (take 10 (toISOString weekStart)))"

record PeriodicalSummary =
  weeklyIncome :: int
  weeklyExpense :: int
  yearlyIncome :: int
  yearlyExpense :: int
  weeklyBalance :: int
  yearlyBalance :: int

record WeeklyCategoryTotals =
  weeklyGyeongsangbiBreakdown :: "(jsstring \<times> jsnum) list"
  weeklySeongyo :: int
  weeklyGeonchuk :: int

record Computed =
  balanceData_of :: BalanceData
  periodicalSummary :: PeriodicalSummary
  weeklyCategoryTotals :: WeeklyCategoryTotals
  transactionsWithBalance :: "TransactionWithBalance list"

text \<open>
  The body of \<^verbatim>\<open>useMemo\<close>, with the date string of today as an argument (the source reads
  it from the clock through \<^verbatim>\<open>todayString\<close>). The result \<open>None\<close> is the RangeError that
  \<^verbatim>\<open>toISOString\<close> throws on an invalid Date, which is what \<^verbatim>\<open>weekStart\<close> is when the string
  of today does not parse. The unused \<^verbatim>\<open>sortedTransactions\<close> is left out.
\<close>

definition useMemo_body ::
  "TimeZone \<Rightarrow> (jsstring \<Rightarrow> jsstring \<Rightarrow> int) \<Rightarrow> Member list \<Rightarrow> Transaction list \<Rightarrow> jsstring
     \<Rightarrow> Computed option" where
  "useMemo_body tz lc ms txs todayStr =
     (case Date_parse todayStr of
        None \<Rightarrow> None
      | Some today \<Rightarrow>
          (case weekStartStr tz today of
             None \<Rightarrow> None
           | Some ws \<Rightarrow>
               (let w = fold (windowStep (yearStartStr tz today) ws) txs initialWindows in
                Some \<lparr>balanceData_of = balanceData txs todayStr,
                      periodicalSummary =
                        \<lparr>weeklyIncome = w_income w, weeklyExpense = w_expense w,
                         yearlyIncome = y_income w, yearlyExpense = y_expense w,
                         weeklyBalance = w_income w - w_expense w,
                         yearlyBalance = y_income w - y_expense w\<rparr>,
                      weeklyCategoryTotals =
                        \<lparr>weeklyGyeongsangbiBreakdown = w_breakdown w,
                         weeklySeongyo = w_seongyo w, weeklyGeonchuk = w_geonchuk w\<rparr>,
                      transactionsWithBalance = withBalance lc ms txs\<rparr>)))"

text \<open>
  Reference sums for the windows: the amounts of the entries of one type dated from
  \<open>lo\<close> on (what the source accumulates), the same with the upper end \<open>hi\<close> (what the
  specification describes), and the amounts of the income entries of one category
  dated from \<open>lo\<close> on. Dates compare as strings.
\<close>

text \<open>
  The signed amount of an entry. The source writes this expression in place (and so do
  the definitions above); the name serves the inductions below, and the theorems on the
  balances are stated without it, by the sums of the amounts of each type.
\<close>

definition signedAmount :: "Transaction \<Rightarrow> int" where
  "signedAmount tx = (if tx_type tx = income then tx_amount tx else - tx_amount tx)"

definition sumFrom :: "txtype \<Rightarrow> jsstring \<Rightarrow> Transaction list \<Rightarrow> int" where
  "sumFrom ty lo txs =
     sum_list (map tx_amount (filter (\<lambda>t. tx_type t = ty \<and> lo \<le> tx_date t) txs))"


definition sumCategoryFrom :: "jsstring \<Rightarrow> jsstring \<Rightarrow> Transaction list \<Rightarrow> int" where
  "sumCategoryFrom cat lo txs =
     sum_list (map tx_amount
       (filter (\<lambda>t. tx_type t = income \<and> lo \<le> tx_date t \<and> tx_category t = cat) txs))"

section \<open>Consistent comparators\<close>

text \<open>
  The language fixes the result of \<^verbatim>\<open>sort\<close> only for a consistent comparator. On a set of
  elements this asks that swapping the arguments flips the sign and that "not after" is
  transitive. \<open>collation_ok\<close> asks the same of the host collation on all strings.
\<close>

definition consistent_on :: "'a set \<Rightarrow> ('a \<Rightarrow> 'a \<Rightarrow> int) \<Rightarrow> bool" where
  "consistent_on S c \<longleftrightarrow>
     (\<forall>x \<in> S. \<forall>y \<in> S. sgn (c y x) = - sgn (c x y))
     \<and> (\<forall>x \<in> S. \<forall>y \<in> S. \<forall>z \<in> S. c x y \<le> 0 \<longrightarrow> c y z \<le> 0 \<longrightarrow> c x z \<le> 0)"

definition collation_ok :: "(jsstring \<Rightarrow> jsstring \<Rightarrow> int) \<Rightarrow> bool" where
  "collation_ok lc \<longleftrightarrow>
     (\<forall>x y. sgn (lc y x) = - sgn (lc x y))
     \<and> (\<forall>x y z. lc x y \<le> 0 \<longrightarrow> lc y z \<le> 0 \<longrightarrow> lc x z \<le> 0)"

text \<open>The first comparator decides unless it gives 0; then the second one does.\<close>

definition lexc :: "('a \<Rightarrow> 'a \<Rightarrow> int) \<Rightarrow> ('a \<Rightarrow> 'a \<Rightarrow> int) \<Rightarrow> 'a \<Rightarrow> 'a \<Rightarrow> int" where
  "lexc c1 c2 x y = (if c1 x y \<noteq> 0 then c1 x y else c2 x y)"

text \<open>
  The keys behind the branches of \<open>compareTx\<close>: the type (income first), the category
  rank and the sort name, which only income entries have.
\<close>

definition typeRank :: "Transaction \<Rightarrow> int" where
  "typeRank tx = (if tx_type tx = income then 0 else 1)"

definition categoryKey :: "Transaction \<Rightarrow> int" where
  "categoryKey tx = (if tx_type tx = income then effectiveIndex (tx_category tx) else 0)"

definition nameKey :: "Member list \<Rightarrow> Transaction \<Rightarrow> jsstring" where
  "nameKey ms tx = (if tx_type tx = income then getMemberNameForSort ms (tx_memberId tx) else [])"

definition layeredCompare ::
  "(jsstring \<Rightarrow> jsstring \<Rightarrow> int) \<Rightarrow> Member list \<Rightarrow> Transaction \<Rightarrow> Transaction \<Rightarrow> int" where
  "layeredCompare lc ms =
     lexc (\<lambda>a b. timeOf a - timeOf b)
       (lexc (\<lambda>a b. typeRank a - typeRank b)
         (lexc (\<lambda>a b. categoryKey a - categoryKey b)
           (lexc (\<lambda>a b. lc (nameKey ms b) (nameKey ms a))
             (\<lambda>a b. tx_id a - tx_id b))))"

section \<open>Example data\<close>

text \<open>A small roster and ledger on which the theorems below are exercised.\<close>

definition mkMember :: "int \<Rightarrow> jsstring \<Rightarrow> Member" where
  "mkMember i n = \<lparr>m_id = i, m_name = n, m_position = js ''-''\<rparr>"

definition mkTx :: "int \<Rightarrow> txtype \<Rightarrow> jsstring \<Rightarrow> jsstring \<Rightarrow> int \<Rightarrow> int option \<Rightarrow> Transaction" where
  "mkTx i ty d c a m =
     \<lparr>tx_id = i, tx_type = ty, tx_date = d, tx_category = c, tx_amount = a,
      tx_memberId = m, tx_memo = None\<rparr>"

definition exMembers :: "Member list" where
  "exMembers = [mkMember 1 (js ''Kim''), mkMember 2 (js ''Lee'')]"

definition exLedger :: "Transaction list" where
  "exLedger =
     [mkTx 101 income (js ''2024-01-07'') SIBILJO 1000 (Some 1),
      mkTx 102 expense (js ''2024-01-07'') (js ''utilities'') 300 None,
      mkTx 103 income (js ''2024-01-06'') SIBILJO 500 (Some 1),
      mkTx 104 income (js ''2024-01-20'') GAMSA 70 (Some 2)]"

text \<open>A stand-in for the host collation: comparison by code units.\<close>

definition codeUnitCompare :: "jsstring \<Rightarrow> jsstring \<Rightarrow> int" where
  "codeUnitCompare x y = (if x < y then - 1 else if x = y then 0 else 1)"

text \<open>A zone with one offset all year.\<close>

definition fixedZone :: "int \<Rightarrow> TimeZone" where
  "fixedZone tza = \<lparr>offsetAtInstant = (\<lambda>_. tza), offsetAtLocal = (\<lambda>_. tza)\<rparr>"

text \<open>Nine hours east of Greenwich (Korea Standard Time).\<close>

definition KST :: TimeZone where
  "KST = fixedZone 32400000"

text \<open>
  Central European time in 2024: two hours east of Greenwich from 31 March 01:00 UTC
  to 27 October 01:00 UTC, one hour otherwise. As local times, summer time runs from
  03:00 on 31 March to 03:00 on 27 October: the repeated hour of 27 October is read as
  summer time (the earlier instant), the skipped hour of 31 March with the offset before
  the change.
\<close>

definition CET2024 :: TimeZone where
  "CET2024 =
     \<lparr>offsetAtInstant = (\<lambda>t. if 1711846800000 \<le> t \<and> t < 1729990800000 then 7200000 else 3600000),
      offsetAtLocal = (\<lambda>t. if 1711854000000 \<le> t \<and> t < 1729998000000 then 7200000 else 3600000)\<rparr>"

definition exState :: AppState where
  "exState = \<lparr>members = exMembers, transactions = exLedger,
               expenseCategories = [js ''utilities''], password = None\<rparr>"

text \<open>An entry with a negative amount and one with amount zero, each a day before a regular one.\<close>

definition exNegative :: Transaction where
  "exNegative = mkTx 201 income (js ''2024-01-06'') SIBILJO (- 5) (Some 1)"

definition exZero :: Transaction where
  "exZero = mkTx 203 income (js ''2024-01-06'') SIBILJO 0 (Some 1)"

definition exRegular :: Transaction where
  "exRegular = mkTx 202 income (js ''2024-01-07'') SIBILJO 10 (Some 1)"

section \<open>Auxiliary facts\<close>

lemma not_income: "tx_type t \<noteq> income \<longleftrightarrow> tx_type t = expense"
  by (cases "tx_type t") simp_all

lemma sum_signed_filter:
  "sum_list (map signedAmount (filter P txs)) =
     sum_list (map tx_amount (filter (\<lambda>t. tx_type t = income \<and> P t) txs))
     - sum_list (map tx_amount (filter (\<lambda>t. tx_type t = expense \<and> P t) txs))"
  by (induction txs) (simp_all add: signedAmount_def not_income)

lemma sum_signed:
  "sum_list (map signedAmount txs) =
     sum_list (map tx_amount (filter (\<lambda>t. tx_type t = income) txs))
     - sum_list (map tx_amount (filter (\<lambda>t. tx_type t = expense) txs))"
  using sum_signed_filter [of "\<lambda>_. True" txs] by simp

lemma foldl_amount_shift:
  "foldl (\<lambda>sum tx. sum + tx_amount tx) a txs = a + sum_list (map tx_amount txs)"
  by (induction txs arbitrary: a) simp_all

lemma reduceAmount_sum: "reduceAmount txs = sum_list (map tx_amount txs)"
  by (simp add: reduceAmount_def foldl_amount_shift)

lemma fold_balanceStep:
  "fold (balanceStep d) txs (p, c) =
     (p + sum_list (map signedAmount (filter (\<lambda>t. tx_date t < d) txs)),
      c + sum_list (map signedAmount (filter (\<lambda>t. tx_date t = d) txs)))"
proof (induction txs arbitrary: p c)
  case Nil
  show ?case by simp
next
  case (Cons t ts)
  have step: "balanceStep d t (p, c) =
      (if tx_date t < d then (p + signedAmount t, c)
       else if tx_date t = d then (p, c + signedAmount t) else (p, c))"
    by (simp add: balanceStep_def signedAmount_def Let_def)
  show ?case
    by (simp add: step Cons.IH)
qed

lemma fold_balanceStep_drop_future:
  "fold (balanceStep d) (filter (\<lambda>t. \<not> d < tx_date t) txs) acc = fold (balanceStep d) txs acc"
proof (induction txs arbitrary: acc)
  case Nil
  show ?case by simp
next
  case (Cons t ts)
  have "d < tx_date t \<Longrightarrow> balanceStep d t acc = acc"
    by (auto simp: balanceStep_def Let_def)
  then show ?case
    by (simp add: Cons.IH)
qed

section \<open>Today split: what the three values are\<close>

text \<open>
  C5. For every entry list and every today string: previousBalance is the sum of the
  income amounts minus the sum of the expense amounts of the entries dated strictly
  before today, todaysChange the same for the entries dated exactly today,
  todaysBalance their sum, and removing every entry dated strictly after today changes
  none of the three values.
\<close>

theorem today_split:
  "previousBalance (balanceData txs today) =
      sum_list (map tx_amount (filter (\<lambda>t. tx_type t = income \<and> tx_date t < today) txs))
      - sum_list (map tx_amount (filter (\<lambda>t. tx_type t = expense \<and> tx_date t < today) txs))
   \<and> todaysChange (balanceData txs today) =
      sum_list (map tx_amount (filter (\<lambda>t. tx_type t = income \<and> tx_date t = today) txs))
      - sum_list (map tx_amount (filter (\<lambda>t. tx_type t = expense \<and> tx_date t = today) txs))
   \<and> todaysBalance (balanceData txs today) =
      previousBalance (balanceData txs today) + todaysChange (balanceData txs today)
   \<and> balanceData (filter (\<lambda>t. \<not> today < tx_date t) txs) today = balanceData txs today"
proof -
  have prev: "previousBalance (balanceData txs today) =
      sum_list (map tx_amount (filter (\<lambda>t. tx_type t = income \<and> tx_date t < today) txs))
      - sum_list (map tx_amount (filter (\<lambda>t. tx_type t = expense \<and> tx_date t < today) txs))"
    by (simp add: balanceData_def Let_def fold_balanceStep sum_signed_filter)
  have change: "todaysChange (balanceData txs today) =
      sum_list (map tx_amount (filter (\<lambda>t. tx_type t = income \<and> tx_date t = today) txs))
      - sum_list (map tx_amount (filter (\<lambda>t. tx_type t = expense \<and> tx_date t = today) txs))"
    by (simp add: balanceData_def Let_def fold_balanceStep sum_signed_filter)
  have total: "todaysBalance (balanceData txs today) =
      previousBalance (balanceData txs today) + todaysChange (balanceData txs today)"
    by (simp add: balanceData_def Let_def)
  have future: "balanceData (filter (\<lambda>t. \<not> today < tx_date t) txs) today = balanceData txs today"
    by (simp only: balanceData_def fold_balanceStep_drop_future)
  from prev change total future show ?thesis by blast
qed

text \<open>
  On the example ledger with today 2024-01-07: the income of 500 of the day before is
  the previous balance, the income of 1000 and the expense of 300 of the day make the
  change 700, and the income of 2024-01-20 counts nowhere.
\<close>

theorem today_split_witness:
  "previousBalance (balanceData exLedger (js ''2024-01-07'')) = 500
   \<and> todaysChange (balanceData exLedger (js ''2024-01-07'')) = 700
   \<and> todaysBalance (balanceData exLedger (js ''2024-01-07'')) = 1200
   \<and> balanceData [exLedger ! 0, exLedger ! 1, exLedger ! 2] (js ''2024-01-07'') =
       balanceData exLedger (js ''2024-01-07'')"
proof -
  note inst = today_split [of exLedger "js ''2024-01-07''"]
  have sums:
    "sum_list (map tx_amount (filter (\<lambda>t. tx_type t = income \<and> tx_date t < js ''2024-01-07'') exLedger)) = 500"
    "sum_list (map tx_amount (filter (\<lambda>t. tx_type t = expense \<and> tx_date t < js ''2024-01-07'') exLedger)) = 0"
    "sum_list (map tx_amount (filter (\<lambda>t. tx_type t = income \<and> tx_date t = js ''2024-01-07'') exLedger)) = 1000"
    "sum_list (map tx_amount (filter (\<lambda>t. tx_type t = expense \<and> tx_date t = js ''2024-01-07'') exLedger)) = 300"
    by (simp_all add: exLedger_def mkTx_def js_def)
  have kept: "filter (\<lambda>t. \<not> js ''2024-01-07'' < tx_date t) exLedger =
      [exLedger ! 0, exLedger ! 1, exLedger ! 2]"
    by (simp add: exLedger_def mkTx_def js_def)
  from inst have prev: "previousBalance (balanceData exLedger (js ''2024-01-07'')) = 500"
    unfolding sums by simp
  from inst have change: "todaysChange (balanceData exLedger (js ''2024-01-07'')) = 700"
    unfolding sums by simp
  from inst prev change have total: "todaysBalance (balanceData exLedger (js ''2024-01-07'')) = 1200"
    by simp
  from inst have future: "balanceData [exLedger ! 0, exLedger ! 1, exLedger ! 2] (js ''2024-01-07'') =
       balanceData exLedger (js ''2024-01-07'')"
    unfolding kept by blast
  from prev change total future show ?thesis
    by blast
qed

section \<open>Deleting a member\<close>

lemma find_filter_other: "find (\<lambda>m. m_id m = i) (filter (\<lambda>m. m_id m \<noteq> i) ms) = None"
  by (simp add: find_None_iff)

text \<open>
  C9. Deleting a member leaves the entry list (and the other state cells) as they were;
  the roster keeps exactly the members with another id, in their order; afterwards
  every entry that referenced the deleted id resolves to the "unspecified" fallback.
\<close>

theorem delete_member_frame:
  "transactions (handleDeleteMember i st) = transactions st
   \<and> expenseCategories (handleDeleteMember i st) = expenseCategories st
   \<and> password (handleDeleteMember i st) = password st
   \<and> members (handleDeleteMember i st) = filter (\<lambda>m. m_id m \<noteq> i) (members st)
   \<and> (\<forall>tx. tx_memberId tx = Some i \<longrightarrow>
          getMemberName (members (handleDeleteMember i st)) (tx_memberId tx) = MIJIJEONG)"
  by (simp add: handleDeleteMember_def getMemberName_def find_filter_other)

theorem delete_member_frame_witness:
  "tx_memberId (exLedger ! 0) = Some 1
   \<and> getMemberName (members exState) (tx_memberId (exLedger ! 0)) = js ''Kim''
   \<and> transactions (handleDeleteMember 1 exState) = exLedger
   \<and> members (handleDeleteMember 1 exState) = [mkMember 2 (js ''Lee'')]
   \<and> getMemberName (members (handleDeleteMember 1 exState)) (tx_memberId (exLedger ! 0)) = MIJIJEONG"
proof -
  have ref: "tx_memberId (exLedger ! 0) = Some 1"
    by (simp add: exLedger_def mkTx_def)
  have before: "getMemberName (members exState) (tx_memberId (exLedger ! 0)) = js ''Kim''"
    by (simp add: ref exState_def exMembers_def mkMember_def getMemberName_def js_def)
  have roster: "filter (\<lambda>m. m_id m \<noteq> 1) (members exState) = [mkMember 2 (js ''Lee'')]"
    by (simp add: exState_def exMembers_def mkMember_def)
  have same: "transactions exState = exLedger"
    by (simp add: exState_def)
  note del = delete_member_frame [of 1 exState]
  from del have "transactions (handleDeleteMember 1 exState) = transactions exState"
    by blast
  with same have kept: "transactions (handleDeleteMember 1 exState) = exLedger"
    by simp
  from del have "members (handleDeleteMember 1 exState) = filter (\<lambda>m. m_id m \<noteq> 1) (members exState)"
    by blast
  with roster have left: "members (handleDeleteMember 1 exState) = [mkMember 2 (js ''Lee'')]"
    by simp
  from del ref have after:
    "getMemberName (members (handleDeleteMember 1 exState)) (tx_memberId (exLedger ! 0)) = MIJIJEONG"
    by blast
  from ref before kept left after show ?thesis
    by blast
qed

section \<open>Search by member\<close>

text \<open>
  C8. The name search returns exactly the income entries whose member id is the queried
  one and whose date lies between start and end (both inclusive, as strings), in ledger
  order, with the sum of their amounts; no expense entry is returned; when start is
  after end the result is the empty list with total 0, not an error.
\<close>

theorem name_search_exact:
  "nameSearchResult txs by_name (Some q) startDate endDate =
     Some \<lparr>sr_transactions =
             filter (\<lambda>tx. tx_type tx = income \<and> tx_memberId tx = Some q
                          \<and> startDate \<le> tx_date tx \<and> tx_date tx \<le> endDate) txs,
           sr_total =
             sum_list (map tx_amount
               (filter (\<lambda>tx. tx_type tx = income \<and> tx_memberId tx = Some q
                          \<and> startDate \<le> tx_date tx \<and> tx_date tx \<le> endDate) txs))\<rparr>
   \<and> (\<forall>r. nameSearchResult txs by_name (Some q) startDate endDate = Some r \<longrightarrow>
          (\<forall>tx \<in> set (sr_transactions r). tx_type tx \<noteq> expense))
   \<and> (endDate < startDate \<longrightarrow>
          nameSearchResult txs by_name (Some q) startDate endDate =
            Some \<lparr>sr_transactions = [], sr_total = 0\<rparr>)"
proof -
  have conj_eq: "(\<lambda>tx. startDate \<le> tx_date tx \<and> tx_date tx \<le> endDate
                     \<and> tx_memberId tx = Some q \<and> tx_type tx = income)
               = (\<lambda>tx. tx_type tx = income \<and> tx_memberId tx = Some q
                     \<and> startDate \<le> tx_date tx \<and> tx_date tx \<le> endDate)"
    by auto
  have main: "nameSearchResult txs by_name (Some q) startDate endDate =
     Some \<lparr>sr_transactions =
             filter (\<lambda>tx. tx_type tx = income \<and> tx_memberId tx = Some q
                          \<and> startDate \<le> tx_date tx \<and> tx_date tx \<le> endDate) txs,
           sr_total =
             sum_list (map tx_amount
               (filter (\<lambda>tx. tx_type tx = income \<and> tx_memberId tx = Some q
                          \<and> startDate \<le> tx_date tx \<and> tx_date tx \<le> endDate) txs))\<rparr>"
    by (simp add: nameSearchResult_def filteredTransactions_def Let_def reduceAmount_sum conj_eq)
  have empty: "filter (\<lambda>tx. tx_type tx = income \<and> tx_memberId tx = Some q
                          \<and> startDate \<le> tx_date tx \<and> tx_date tx \<le> endDate) txs = []"
    if "endDate < startDate"
  proof -
    have "\<not> (startDate \<le> d \<and> d \<le> endDate)" for d
      using that by auto
    then show ?thesis by simp
  qed
  show ?thesis
    using main empty by auto
qed

theorem name_search_exact_witness:
  "nameSearchResult exLedger by_name (Some 1) (js ''2024-01-01'') (js ''2024-01-31'') =
     Some \<lparr>sr_transactions = [exLedger ! 0, exLedger ! 2], sr_total = 1500\<rparr>
   \<and> js ''2024-01-01'' < js ''2024-01-31''
   \<and> nameSearchResult exLedger by_name (Some 1) (js ''2024-01-31'') (js ''2024-01-01'') =
     Some \<lparr>sr_transactions = [], sr_total = 0\<rparr>"
proof -
  have inv: "js ''2024-01-01'' < js ''2024-01-31''"
    by (simp add: js_def)
  have hit: "filter (\<lambda>tx. tx_type tx = income \<and> tx_memberId tx = Some 1
                 \<and> js ''2024-01-01'' \<le> tx_date tx \<and> tx_date tx \<le> js ''2024-01-31'') exLedger
             = [exLedger ! 0, exLedger ! 2]"
    by (simp add: exLedger_def mkTx_def js_def)
  have amounts: "sum_list (map tx_amount [exLedger ! 0, exLedger ! 2]) = 1500"
    by (simp add: exLedger_def mkTx_def)
  from name_search_exact [of exLedger 1 "js ''2024-01-01''" "js ''2024-01-31''"]
  have "nameSearchResult exLedger by_name (Some 1) (js ''2024-01-01'') (js ''2024-01-31'') =
     Some \<lparr>sr_transactions =
             filter (\<lambda>tx. tx_type tx = income \<and> tx_memberId tx = Some 1
                 \<and> js ''2024-01-01'' \<le> tx_date tx \<and> tx_date tx \<le> js ''2024-01-31'') exLedger,
           sr_total =
             sum_list (map tx_amount
               (filter (\<lambda>tx. tx_type tx = income \<and> tx_memberId tx = Some 1
                 \<and> js ''2024-01-01'' \<le> tx_date tx \<and> tx_date tx \<le> js ''2024-01-31'') exLedger))\<rparr>"
    by blast
  then have fwd: "nameSearchResult exLedger by_name (Some 1) (js ''2024-01-01'') (js ''2024-01-31'') =
     Some \<lparr>sr_transactions = [exLedger ! 0, exLedger ! 2], sr_total = 1500\<rparr>"
    by (simp only: hit amounts)
  from name_search_exact [of exLedger 1 "js ''2024-01-31''" "js ''2024-01-01''"] inv
  have bwd: "nameSearchResult exLedger by_name (Some 1) (js ''2024-01-31'') (js ''2024-01-01'') =
     Some \<lparr>sr_transactions = [], sr_total = 0\<rparr>"
    by blast
  from fwd inv bwd show ?thesis
    by blast
qed

section \<open>The sort as a permutation; the running balance as prefix sums\<close>

lemma mset_insertSorted: "mset (insertSorted c x ys) = add_mset x (mset ys)"
  by (induction ys) simp_all

lemma mset_Array_sort: "mset (Array_sort f xs) = mset xs"
  by (induction xs) (simp_all add: Array_sort_def mset_insertSorted)

lemma length_Array_sort: "length (Array_sort f xs) = length xs"
  using mset_Array_sort [of f xs] by (metis size_mset)

lemma truncate_spread: "Transaction.truncate (spreadWithBalance tx b) = tx"
  by (simp add: spreadWithBalance_def Transaction.defs)

lemma balance_spread: "balance (spreadWithBalance tx b) = b"
  by (simp add: spreadWithBalance_def Transaction.defs TransactionWithBalance.defs)

lemma truncate_attachBalance: "map Transaction.truncate (attachBalance rb xs) = xs"
  by (induction xs arbitrary: rb) (simp_all add: Let_def truncate_spread)

lemma length_attachBalance: "length (attachBalance rb xs) = length xs"
  by (induction xs arbitrary: rb) (simp_all add: Let_def)

lemma balance_attachBalance:
  "i < length xs \<Longrightarrow>
     balance (attachBalance rb xs ! i) = rb + sum_list (map signedAmount (take (Suc i) xs))"
proof (induction xs arbitrary: rb i)
  case Nil
  then show ?case by simp
next
  case (Cons x xs)
  show ?case
  proof (cases i)
    case 0
    then show ?thesis by (simp add: Let_def balance_spread signedAmount_def)
  next
    case (Suc j)
    with Cons.prems have "j < length xs" by simp
    from Cons.IH [OF this, of "rb + signedAmount x"] Suc show ?thesis
      by (simp add: Let_def signedAmount_def)
  qed
qed

lemma sum_signed_Array_sort:
  "sum_list (map signedAmount (Array_sort f xs)) = sum_list (map signedAmount xs)"
proof -
  have "mset (map signedAmount (Array_sort f xs)) = mset (map signedAmount xs)"
    by (simp add: mset_Array_sort)
  then show ?thesis
    by (metis sum_mset_sum_list)
qed

lemma rev_withBalance: "rev (withBalance lc ms txs) = attachBalance 0 (Array_sort (compareTx lc ms) txs)"
  by (simp add: withBalance_def)

subsection \<open>The primary key is the date\<close>

lemma SortCompare_dates:
  assumes "Date_parse (tx_date a) = Some ta" and "Date_parse (tx_date b) = Some tb"
  shows "ta < tb \<Longrightarrow> SortCompare (compareTx lc ms) a b < 0"
    and "tb < ta \<Longrightarrow> 0 < SortCompare (compareTx lc ms) a b"
  using assms by (simp_all add: SortCompare_def compareTx_def Let_def)

lemma SortCompare_le_dates:
  assumes "Date_parse (tx_date a) = Some ta" and "Date_parse (tx_date b) = Some tb"
  shows "SortCompare (compareTx lc ms) a b \<le> 0 \<Longrightarrow> ta \<le> tb"
    and "\<not> SortCompare (compareTx lc ms) a b \<le> 0 \<Longrightarrow> tb \<le> ta"
  using SortCompare_dates [OF assms, of lc ms] by force+

lemma set_insertSorted: "set (insertSorted c x ys) = insert x (set ys)"
  using mset_insertSorted [of c x ys] by (metis set_mset_add_mset_insert set_mset_mset)

lemma insertSorted_by_date:
  assumes "Date_parse (tx_date x) \<noteq> None"
    and "\<forall>y \<in> set ys. Date_parse (tx_date y) \<noteq> None"
    and "sorted_wrt (\<lambda>a b. timeOf a \<le> timeOf b) ys"
  shows "sorted_wrt (\<lambda>a b. timeOf a \<le> timeOf b)
           (insertSorted (SortCompare (compareTx lc ms)) x ys)"
  using assms
proof (induction ys)
  case Nil
  then show ?case by simp
next
  case (Cons y ys)
  from Cons.prems obtain tx ty where tx: "Date_parse (tx_date x) = Some tx"
    and ty: "Date_parse (tx_date y) = Some ty"
    by auto
  show ?case
  proof (cases "SortCompare (compareTx lc ms) x y \<le> 0")
    case True
    with SortCompare_le_dates(1) [OF tx ty] have "timeOf x \<le> timeOf y"
      by (simp add: timeOf_def tx ty)
    with Cons.prems(3) True show ?thesis
      by auto
  next
    case False
    with SortCompare_le_dates(2) [OF tx ty] have yx: "timeOf y \<le> timeOf x"
      by (simp add: timeOf_def tx ty)
    from Cons.prems have "sorted_wrt (\<lambda>a b. timeOf a \<le> timeOf b)
           (insertSorted (SortCompare (compareTx lc ms)) x ys)"
      by (intro Cons.IH) simp_all
    with Cons.prems(3) yx False show ?thesis
      by (auto simp: set_insertSorted)
  qed
qed

lemma Array_sort_by_date:
  "\<forall>t \<in> set txs. Date_parse (tx_date t) \<noteq> None \<Longrightarrow>
     sorted_wrt (\<lambda>a b. timeOf a \<le> timeOf b) (Array_sort (compareTx lc ms) txs)"
proof (induction txs)
  case Nil
  show ?case by (simp add: Array_sort_def)
next
  case (Cons t ts)
  have step: "Array_sort (compareTx lc ms) (t # ts) =
      insertSorted (SortCompare (compareTx lc ms)) t (Array_sort (compareTx lc ms) ts)"
    by (simp add: Array_sort_def)
  have "\<forall>y \<in> set (Array_sort (compareTx lc ms) ts). Date_parse (tx_date y) \<noteq> None"
    using Cons.prems mset_Array_sort [of "compareTx lc ms" ts]
    by (metis list.set_intros(2) set_mset_mset)
  with Cons show ?case
    unfolding step by (intro insertSorted_by_date) simp_all
qed

section \<open>The display feed keeps every entry\<close>

text \<open>
  C10. The display feed is a permutation of the input: stripped of the balance field,
  its entries are the input entries, each as often as in the input and with every field
  as it was; the feed has the length of the input.
\<close>

theorem feed_is_permutation:
  "mset (map Transaction.truncate (withBalance lc ms txs)) = mset txs
   \<and> length (withBalance lc ms txs) = length txs"
proof -
  have "map Transaction.truncate (rev (withBalance lc ms txs)) = Array_sort (compareTx lc ms) txs"
    by (simp only: rev_withBalance truncate_attachBalance)
  then have "mset (map Transaction.truncate (rev (withBalance lc ms txs))) = mset txs"
    by (simp only: mset_Array_sort)
  then have perm: "mset (map Transaction.truncate (withBalance lc ms txs)) = mset txs"
    by (simp add: rev_map [symmetric])
  have "length (rev (withBalance lc ms txs)) = length txs"
    by (simp only: rev_withBalance length_attachBalance length_Array_sort)
  with perm show ?thesis by simp
qed

section \<open>The attached balances\<close>

text \<open>
  C2. Read in chronological order (the feed reversed), the feed is the sorted entry list,
  and the balance attached to the entry at each position is the sum of the income
  amounts minus the sum of the expense amounts of the sorted entries up to and
  including that position; so the balance on the last entry in that order (the head of
  the feed) is the sum of all income amounts minus the sum of all expense amounts of
  the list. When every date parses, the sorted order is ascending in the time value of
  the date.
\<close>

theorem running_balance_prefix_sums:
  "map Transaction.truncate (rev (withBalance lc ms txs)) = Array_sort (compareTx lc ms) txs
   \<and> (\<forall>i < length txs.
         balance (rev (withBalance lc ms txs) ! i) =
           sum_list (map tx_amount (filter (\<lambda>t. tx_type t = income)
                       (take (Suc i) (Array_sort (compareTx lc ms) txs))))
           - sum_list (map tx_amount (filter (\<lambda>t. tx_type t = expense)
                       (take (Suc i) (Array_sort (compareTx lc ms) txs)))))
   \<and> (txs \<noteq> [] \<longrightarrow>
         balance (hd (withBalance lc ms txs)) =
           sum_list (map tx_amount (filter (\<lambda>t. tx_type t = income) txs))
           - sum_list (map tx_amount (filter (\<lambda>t. tx_type t = expense) txs)))
   \<and> ((\<forall>t \<in> set txs. Date_parse (tx_date t) \<noteq> None) \<longrightarrow>
         sorted_wrt (\<lambda>a b. timeOf a \<le> timeOf b) (Array_sort (compareTx lc ms) txs))"
proof -
  let ?s = "Array_sort (compareTx lc ms) txs"
  have order: "map Transaction.truncate (rev (withBalance lc ms txs)) = ?s"
    by (simp only: rev_withBalance truncate_attachBalance)
  have prefix: "balance (rev (withBalance lc ms txs) ! i) =
      sum_list (map tx_amount (filter (\<lambda>t. tx_type t = income) (take (Suc i) ?s)))
      - sum_list (map tx_amount (filter (\<lambda>t. tx_type t = expense) (take (Suc i) ?s)))"
    if "i < length txs" for i
  proof -
    from that have "i < length ?s" by (simp add: length_Array_sort)
    from balance_attachBalance [OF this, of 0]
    have "balance (rev (withBalance lc ms txs) ! i) = sum_list (map signedAmount (take (Suc i) ?s))"
      by (simp add: rev_withBalance)
    then show ?thesis
      by (simp only: sum_signed)
  qed
  have last: "balance (hd (withBalance lc ms txs)) =
      sum_list (map tx_amount (filter (\<lambda>t. tx_type t = income) txs))
      - sum_list (map tx_amount (filter (\<lambda>t. tx_type t = expense) txs))"
    if "txs \<noteq> []"
  proof -
    from that have len: "length ?s - 1 < length ?s" "?s \<noteq> []"
      by (simp_all add: length_Array_sort flip: length_greater_0_conv)
    have ne: "attachBalance 0 ?s \<noteq> []"
      using len(2) length_attachBalance [of 0 ?s] by (metis length_0_conv)
    have "hd (withBalance lc ms txs) = last (attachBalance 0 ?s)"
      by (simp add: withBalance_def hd_rev)
    also have "\<dots> = attachBalance 0 ?s ! (length ?s - 1)"
      using ne by (simp add: last_conv_nth length_attachBalance)
    finally have "balance (hd (withBalance lc ms txs)) =
        sum_list (map signedAmount (take (Suc (length ?s - 1)) ?s))"
      using balance_attachBalance [OF len(1), of 0] by simp
    also have "\<dots> = sum_list (map signedAmount ?s)"
      using len(2) by simp
    also have "\<dots> = sum_list (map signedAmount txs)"
      by (simp only: sum_signed_Array_sort)
    finally show ?thesis
      by (simp only: sum_signed)
  qed
  from order prefix last Array_sort_by_date [of txs lc ms] show ?thesis
    by blast
qed


subsection \<open>The example ledger, evaluated\<close>

lemma parse_0106: "Date_parse (js ''2024-01-06'') = Some 1704499200000"
  by code_simp

lemma parse_0107: "Date_parse (js ''2024-01-07'') = Some 1704585600000"
  by code_simp

lemma parse_0110: "Date_parse (js ''2024-01-10'') = Some 1704844800000"
  by code_simp

lemma parse_0120: "Date_parse (js ''2024-01-20'') = Some 1705708800000"
  by code_simp

lemmas parse_examples = parse_0106 parse_0107 parse_0110 parse_0120

lemma exLedger_valid: "list_all (\<lambda>t. Date_parse (tx_date t) \<noteq> None) exLedger"
  by (simp add: exLedger_def mkTx_def parse_examples)

lemma exLedger_sorted:
  "Array_sort (compareTx codeUnitCompare exMembers) exLedger =
     [exLedger ! 2, exLedger ! 0, exLedger ! 1, exLedger ! 3]"
  by (simp add: Array_sort_def SortCompare_def compareTx_def exLedger_def mkTx_def parse_examples)

text \<open>
  On the example ledger the order is 2024-01-06 (income 500), 2024-01-07 (income 1000,
  then expense 300), 2024-01-20 (income 70), and the balances are 500, 1500, 1200, 1270:
  the expense is subtracted.
\<close>

theorem running_balance_prefix_sums_witness:
  "exLedger \<noteq> [] \<and> list_all (\<lambda>t. Date_parse (tx_date t) \<noteq> None) exLedger
   \<and> map Transaction.truncate (rev (withBalance codeUnitCompare exMembers exLedger)) =
        [exLedger ! 2, exLedger ! 0, exLedger ! 1, exLedger ! 3]
   \<and> tx_type (exLedger ! 1) = expense \<and> tx_amount (exLedger ! 1) = 300
   \<and> balance (rev (withBalance codeUnitCompare exMembers exLedger) ! 0) = 500
   \<and> balance (rev (withBalance codeUnitCompare exMembers exLedger) ! 1) = 1500
   \<and> balance (rev (withBalance codeUnitCompare exMembers exLedger) ! 2) = 1200
   \<and> balance (rev (withBalance codeUnitCompare exMembers exLedger) ! 3) = 1270
   \<and> balance (hd (withBalance codeUnitCompare exMembers exLedger)) = 1270
   \<and> sorted_wrt (\<lambda>a b. timeOf a \<le> timeOf b)
        [exLedger ! 2, exLedger ! 0, exLedger ! 1, exLedger ! 3]"
proof -
  let ?s = "[exLedger ! 2, exLedger ! 0, exLedger ! 1, exLedger ! 3]"
  note inst = running_balance_prefix_sums [of codeUnitCompare exMembers exLedger]
  have ne: "exLedger \<noteq> []"
    by (simp add: exLedger_def)
  have len: "length exLedger = 4"
    by (simp add: exLedger_def)
  have exp: "tx_type (exLedger ! 1) = expense" "tx_amount (exLedger ! 1) = 300"
    by (simp_all add: exLedger_def mkTx_def)
  have all_valid: "\<forall>t \<in> set exLedger. Date_parse (tx_date t) \<noteq> None"
    using exLedger_valid by (simp add: list_all_iff)
  from inst have order:
    "map Transaction.truncate (rev (withBalance codeUnitCompare exMembers exLedger)) = ?s"
    unfolding exLedger_sorted by blast
  from inst have prefix: "\<forall>i < length exLedger.
      balance (rev (withBalance codeUnitCompare exMembers exLedger) ! i) =
        sum_list (map tx_amount (filter (\<lambda>t. tx_type t = income) (take (Suc i) ?s)))
        - sum_list (map tx_amount (filter (\<lambda>t. tx_type t = expense) (take (Suc i) ?s)))"
    unfolding exLedger_sorted by blast
  have sums:
    "sum_list (map tx_amount (filter (\<lambda>t. tx_type t = income) (take (Suc 0) ?s)))
       - sum_list (map tx_amount (filter (\<lambda>t. tx_type t = expense) (take (Suc 0) ?s))) = 500"
    "sum_list (map tx_amount (filter (\<lambda>t. tx_type t = income) (take (Suc 1) ?s)))
       - sum_list (map tx_amount (filter (\<lambda>t. tx_type t = expense) (take (Suc 1) ?s))) = 1500"
    "sum_list (map tx_amount (filter (\<lambda>t. tx_type t = income) (take (Suc 2) ?s)))
       - sum_list (map tx_amount (filter (\<lambda>t. tx_type t = expense) (take (Suc 2) ?s))) = 1200"
    "sum_list (map tx_amount (filter (\<lambda>t. tx_type t = income) (take (Suc 3) ?s)))
       - sum_list (map tx_amount (filter (\<lambda>t. tx_type t = expense) (take (Suc 3) ?s))) = 1270"
    by (simp_all add: exLedger_def mkTx_def)
  have b0: "balance (rev (withBalance codeUnitCompare exMembers exLedger) ! 0) = 500"
    using prefix [rule_format, of 0] len unfolding sums(1) by simp
  have b1: "balance (rev (withBalance codeUnitCompare exMembers exLedger) ! 1) = 1500"
    using prefix [rule_format, of 1] len unfolding sums(2) by simp
  have b2: "balance (rev (withBalance codeUnitCompare exMembers exLedger) ! 2) = 1200"
    using prefix [rule_format, of 2] len unfolding sums(3) by simp
  have b3: "balance (rev (withBalance codeUnitCompare exMembers exLedger) ! 3) = 1270"
    using prefix [rule_format, of 3] len unfolding sums(4) by simp
  have total: "sum_list (map tx_amount (filter (\<lambda>t. tx_type t = income) exLedger))
      - sum_list (map tx_amount (filter (\<lambda>t. tx_type t = expense) exLedger)) = 1270"
    by (simp add: exLedger_def mkTx_def)
  from inst ne have "balance (hd (withBalance codeUnitCompare exMembers exLedger)) =
      sum_list (map tx_amount (filter (\<lambda>t. tx_type t = income) exLedger))
      - sum_list (map tx_amount (filter (\<lambda>t. tx_type t = expense) exLedger))"
    by blast
  with total have head: "balance (hd (withBalance codeUnitCompare exMembers exLedger)) = 1270"
    by simp
  from inst all_valid have chrono: "sorted_wrt (\<lambda>a b. timeOf a \<le> timeOf b) ?s"
    unfolding exLedger_sorted by blast
  from ne exLedger_valid order exp b0 b1 b2 b3 head chrono show ?thesis
    by blast
qed


section \<open>The name tie-break of the comparator\<close>

lemma sentinels_differ: "MUMYEONG \<noteq> MIJIJEONG"
  by (simp add: MUMYEONG_def MIJIJEONG_def)

lemma nameForSort_absent: "getMemberNameForSort ms None = MUMYEONG"
  by (simp add: getMemberNameForSort_def)

lemma nameForSort_dangling:
  "\<forall>m \<in> set ms. m_id m \<noteq> i \<Longrightarrow> getMemberNameForSort ms (Some i) = MIJIJEONG"
proof -
  assume "\<forall>m \<in> set ms. m_id m \<noteq> i"
  then have "find (\<lambda>m. m_id m = i) ms = None"
    by (simp add: find_None_iff)
  then show ?thesis
    by (simp add: getMemberNameForSort_def)
qed

lemma nameForSort_found:
  "find (\<lambda>m. m_id m = i) ms = Some m \<Longrightarrow> m_name m \<noteq> [] \<Longrightarrow>
     getMemberNameForSort ms (Some i) = m_name m"
  by (simp add: getMemberNameForSort_def)

text \<open>
  C4, as the source has it. For two income entries of one date and one category the
  comparator returns the collation of the two sort names with the arguments swapped
  (second entry's name against the first's, hence descending), and the difference of
  the ids when the names collate equal. The sort name is the member's name when the
  member is found with a non-empty name. An entry without a member id has the sort name
  MUMYEONG; an entry whose member id matches no member has the sort name MIJIJEONG;
  the two literals differ.
\<close>

theorem name_tiebreak:
  "(Date_parse (tx_date a) = Some t \<and> Date_parse (tx_date b) = Some t
      \<and> tx_type a = income \<and> tx_type b = income \<and> tx_category a = tx_category b \<longrightarrow>
      compareTx lc ms a b =
        Some (if lc (getMemberNameForSort ms (tx_memberId b)) (getMemberNameForSort ms (tx_memberId a)) \<noteq> 0
              then lc (getMemberNameForSort ms (tx_memberId b)) (getMemberNameForSort ms (tx_memberId a))
              else tx_id a - tx_id b))
   \<and> (find (\<lambda>m. m_id m = i) ms = Some m \<and> m_name m \<noteq> [] \<longrightarrow>
        getMemberNameForSort ms (Some i) = m_name m)
   \<and> getMemberNameForSort ms None = MUMYEONG
   \<and> ((\<forall>m \<in> set ms. m_id m \<noteq> i) \<longrightarrow> getMemberNameForSort ms (Some i) = MIJIJEONG)
   \<and> MUMYEONG \<noteq> MIJIJEONG"
proof -
  have cmp: "compareTx lc ms a b =
        Some (if lc (getMemberNameForSort ms (tx_memberId b)) (getMemberNameForSort ms (tx_memberId a)) \<noteq> 0
              then lc (getMemberNameForSort ms (tx_memberId b)) (getMemberNameForSort ms (tx_memberId a))
              else tx_id a - tx_id b)"
    if "Date_parse (tx_date a) = Some t" "Date_parse (tx_date b) = Some t"
       "tx_type a = income" "tx_type b = income" "tx_category a = tx_category b"
    using that by (simp add: compareTx_def Let_def)
  from cmp nameForSort_found [of i ms m] nameForSort_absent [of ms]
       nameForSort_dangling [of ms i] sentinels_differ
  show ?thesis by blast
qed

theorem name_tiebreak_witness:
  "Date_parse (tx_date (exLedger ! 0)) = Some 1704585600000
   \<and> Date_parse (tx_date (mkTx 105 income (js ''2024-01-07'') SIBILJO 10 None)) = Some 1704585600000
   \<and> tx_category (exLedger ! 0) = tx_category (mkTx 105 income (js ''2024-01-07'') SIBILJO 10 None)
   \<and> compareTx codeUnitCompare exMembers (exLedger ! 0)
         (mkTx 105 income (js ''2024-01-07'') SIBILJO 10 None) = Some 1
   \<and> find (\<lambda>m. m_id m = 1) exMembers = Some (mkMember 1 (js ''Kim''))
   \<and> getMemberNameForSort exMembers (Some 1) = js ''Kim''
   \<and> getMemberNameForSort exMembers (Some 99) = MIJIJEONG"
proof -
  let ?b = "mkTx 105 income (js ''2024-01-07'') SIBILJO 10 None"
  note inst = name_tiebreak [of "exLedger ! 0" 1704585600000 ?b codeUnitCompare exMembers 1
      "mkMember 1 (js ''Kim'')"]
  note inst99 = name_tiebreak [of "exLedger ! 0" 1704585600000 ?b codeUnitCompare exMembers 99
      "mkMember 1 (js ''Kim'')"]
  have pa: "Date_parse (tx_date (exLedger ! 0)) = Some 1704585600000"
    by (simp add: exLedger_def mkTx_def parse_examples)
  have pb: "Date_parse (tx_date ?b) = Some 1704585600000"
    by (simp add: mkTx_def parse_examples)
  have ty: "tx_type (exLedger ! 0) = income" "tx_type ?b = income"
    by (simp_all add: exLedger_def mkTx_def)
  have cat: "tx_category (exLedger ! 0) = tx_category ?b"
    by (simp add: exLedger_def mkTx_def)
  have found: "find (\<lambda>m. m_id m = 1) exMembers = Some (mkMember 1 (js ''Kim''))"
    by (simp add: exMembers_def mkMember_def)
  have nonempty: "m_name (mkMember 1 (js ''Kim'')) \<noteq> []"
    by (simp add: mkMember_def js_def)
  have nobody: "\<forall>m \<in> set exMembers. m_id m \<noteq> 99"
    by (simp add: exMembers_def mkMember_def)
  from inst found nonempty have kim: "getMemberNameForSort exMembers (Some 1) = m_name (mkMember 1 (js ''Kim''))"
    by blast
  then have kim': "getMemberNameForSort exMembers (Some 1) = js ''Kim''"
    by (simp add: mkMember_def)
  from inst have anon: "getMemberNameForSort exMembers None = MUMYEONG"
    by blast
  from inst99 nobody have dangling: "getMemberNameForSort exMembers (Some 99) = MIJIJEONG"
    by blast
  have ids: "tx_memberId (exLedger ! 0) = Some 1" "tx_memberId ?b = None"
      "tx_id (exLedger ! 0) = 101" "tx_id ?b = 105"
    by (simp_all add: exLedger_def mkTx_def)
  have coll: "codeUnitCompare (js ''Kim'') MUMYEONG = - 1"
    by (simp add: codeUnitCompare_def js_def MUMYEONG_def)
  have coll': "codeUnitCompare MUMYEONG (js ''Kim'') = 1"
    by (simp add: codeUnitCompare_def js_def MUMYEONG_def)
  from inst pa pb ty cat have "compareTx codeUnitCompare exMembers (exLedger ! 0) ?b =
      Some (if codeUnitCompare (getMemberNameForSort exMembers (tx_memberId ?b))
                 (getMemberNameForSort exMembers (tx_memberId (exLedger ! 0))) \<noteq> 0
            then codeUnitCompare (getMemberNameForSort exMembers (tx_memberId ?b))
                 (getMemberNameForSort exMembers (tx_memberId (exLedger ! 0)))
            else tx_id (exLedger ! 0) - tx_id ?b)"
    by blast
  then have cmp: "compareTx codeUnitCompare exMembers (exLedger ! 0) ?b = Some 1"
    by (simp add: ids kim' anon coll')
  from pa pb cat cmp found kim' dangling show ?thesis
    by blast
qed

text \<open>
  The two kinds of unresolved member do not share one sort name: an entry without a
  member id and an entry with an unknown member id get different literals.
\<close>

theorem single_sentinel_counterexample:
  "getMemberNameForSort exMembers None \<noteq> getMemberNameForSort exMembers (Some 99)"
proof -
  have "\<forall>m \<in> set exMembers. m_id m \<noteq> 99"
    by (simp add: exMembers_def mkMember_def)
  then show ?thesis
    by (simp add: nameForSort_absent nameForSort_dangling sentinels_differ)
qed


section \<open>Calendar facts\<close>

lemma digitVal_range: "isDigit c \<Longrightarrow> 0 \<le> digitVal c \<and> digitVal c \<le> 9"
  by (auto simp: isDigit_def digitVal_def)

lemma DaysInMonth_le: "DaysInMonth y m \<le> 31"
  by (simp add: DaysInMonth_def)

lemma Date_parse_SomeD:
  assumes "Date_parse s = Some t"
  shows "\<exists>y m d. 0 \<le> y \<and> y \<le> 9999 \<and> 1 \<le> m \<and> m \<le> 12 \<and> 1 \<le> d \<and> d \<le> 31
           \<and> t = MakeDay y (m - 1) d * msPerDay"
proof -
  from assms obtain y1 y2 y3 y4 h1 m1 m2 h2 d1 d2 where
    s: "s = [y1, y2, y3, y4, h1, m1, m2, h2, d1, d2]"
    by (auto simp: Date_parse_def split: list.splits)
  define y where "y = 1000 * digitVal y1 + 100 * digitVal y2 + 10 * digitVal y3 + digitVal y4"
  define m where "m = 10 * digitVal m1 + digitVal m2"
  define d where "d = 10 * digitVal d1 + digitVal d2"
  from assms have dig: "isDigit y1" "isDigit y2" "isDigit y3" "isDigit y4"
    and ok: "1 \<le> m" "m \<le> 12" "1 \<le> d" "d \<le> DaysInMonth y m"
    and clip: "TimeClip (MakeDate (MakeDay y (m - 1) d) 0) = Some t"
    unfolding s y_def m_def d_def
    by (auto simp: Date_parse_def Let_def split: if_splits)
  from clip have t: "t = MakeDay y (m - 1) d * msPerDay"
    by (auto simp: TimeClip_def MakeDate_def split: if_splits)
  from dig have "0 \<le> y \<and> y \<le> 9999"
    unfolding y_def using digitVal_range [of y1] digitVal_range [of y2]
      digitVal_range [of y3] digitVal_range [of y4] by linarith
  moreover from ok(4) DaysInMonth_le [of y m] have "d \<le> 31" by linarith
  ultimately show ?thesis
    using ok t by blast
qed

lemma DayFromYear_bounds:
  assumes "0 \<le> y" and "y \<le> 9999"
  shows "- 720000 \<le> DayFromYear y \<and> DayFromYear y \<le> 2940000"
proof -
  have lin: "- 720000 \<le> 365 * (y - 1970) + a - b + c \<and> 365 * (y - 1970) + a - b + c \<le> 2940000"
    if "- 493 \<le> a" "a \<le> 2007" "- 20 \<le> b" "b \<le> 80" "- 5 \<le> c" "c \<le> 20"
    for a :: int and b :: int and c :: int
    using that assms by (simp add: algebra_simps)
  have a: "- 493 \<le> (y - 1969) div 4" "(y - 1969) div 4 \<le> 2007"
    using assms zdiv_mono1 [of "- 1969" "y - 1969" 4] zdiv_mono1 [of "y - 1969" 8030 4] by simp_all
  have b: "- 20 \<le> (y - 1901) div 100" "(y - 1901) div 100 \<le> 80"
    using assms zdiv_mono1 [of "- 1901" "y - 1901" 100] zdiv_mono1 [of "y - 1901" 8098 100] by simp_all
  have c: "- 5 \<le> (y - 1601) div 400" "(y - 1601) div 400 \<le> 20"
    using assms zdiv_mono1 [of "- 1601" "y - 1601" 400] zdiv_mono1 [of "y - 1601" 8398 400] by simp_all
  show ?thesis
    unfolding DayFromYear_def by (rule lin [OF a b c])
qed

lemma monthStart_bounds: "0 \<le> l \<Longrightarrow> l \<le> 1 \<Longrightarrow> 0 \<le> monthStart l m \<and> monthStart l m \<le> 335"
  by (simp add: monthStart_def)

lemma MakeDay_bounds:
  assumes "0 \<le> y" "y \<le> 9999" "1 \<le> m" "m \<le> 12" "1 \<le> d" "d \<le> 31"
  shows "- 720000 \<le> MakeDay y (m - 1) d \<and> MakeDay y (m - 1) d \<le> 2941000"
proof -
  from assms have mn: "(m - 1) div 12 = 0" "(m - 1) mod 12 = m - 1"
    by simp_all
  have ms: "0 \<le> monthStart (if DaysInYear y = 366 then 1 else 0) (m - 1)
      \<and> monthStart (if DaysInYear y = 366 then 1 else 0) (m - 1) \<le> 335"
    by (rule monthStart_bounds) simp_all
  from DayFromYear_bounds [OF assms(1,2)] ms assms(5,6) show ?thesis
    by (simp add: MakeDay_def Let_def mn)
qed

lemma Date_parse_day:
  assumes "Date_parse s = Some t"
  shows "t = Day t * msPerDay \<and> - 720000 \<le> Day t \<and> Day t \<le> 2941000"
proof -
  from Date_parse_SomeD [OF assms] obtain y m d where
    r: "0 \<le> y" "y \<le> 9999" "1 \<le> m" "m \<le> 12" "1 \<le> d" "d \<le> 31"
    and t: "t = MakeDay y (m - 1) d * msPerDay"
    by blast
  from t have "Day t = MakeDay y (m - 1) d"
    by (simp add: Day_def msPerDay_def)
  with t MakeDay_bounds [OF r] show ?thesis
    by simp
qed

lemma MonthFromTime_range: "0 \<le> MonthFromTime t \<and> MonthFromTime t \<le> 11"
  by (simp add: MonthFromTime_def Let_def)

lemma setDate_week_start:
  "setDate tz t (getDate tz t - getDay tz t) =
     TimeClip ((Day (LocalTime tz t) - WeekDay (LocalTime tz t)) * msPerDay
                 + TimeWithinDay (LocalTime tz t)
               - offsetAtLocal tz ((Day (LocalTime tz t) - WeekDay (LocalTime tz t)) * msPerDay
                                     + TimeWithinDay (LocalTime tz t)))"
proof -
  define lt where "lt = LocalTime tz t"
  have mn: "MonthFromTime lt div 12 = 0" "MonthFromTime lt mod 12 = MonthFromTime lt"
    using MonthFromTime_range [of lt] by simp_all
  have "MakeDay (YearFromTime lt) (MonthFromTime lt) (DateFromTime lt - WeekDay lt) =
      Day lt - WeekDay lt"
    by (simp add: MakeDay_def Let_def mn DateFromTime_def DayWithinYear_def InLeapYear_def)
  then have "setDate tz t (DateFromTime lt - WeekDay lt) =
      TimeClip ((Day lt - WeekDay lt) * msPerDay + TimeWithinDay lt
                - offsetAtLocal tz ((Day lt - WeekDay lt) * msPerDay + TimeWithinDay lt))"
    by (simp add: setDate_def UTC_def MakeDate_def Let_def lt_def [symmetric])
  then show ?thesis
    by (simp only: getDate_def getDay_def lt_def)
qed

lemma local_day_east:
  assumes "t = Day t * msPerDay" "0 \<le> tza" "tza < msPerDay"
  shows "Day (t + tza) = Day t" and "TimeWithinDay (t + tza) = tza" and "WeekDay (t + tza) = WeekDay t"
proof -
  from assms(2,3) have "(Day t * msPerDay + tza) div msPerDay = Day t"
    by (simp add: msPerDay_def)
  with assms(1) show d: "Day (t + tza) = Day t"
    by (metis Day_def)
  from assms(2,3) have "(Day t * msPerDay + tza) mod msPerDay = tza"
    by (simp add: msPerDay_def)
  with assms(1) show "TimeWithinDay (t + tza) = tza"
    by (metis TimeWithinDay_def)
  from d show "WeekDay (t + tza) = WeekDay t"
    by (simp add: WeekDay_def)
qed

lemma getFullYear_east:
  assumes "t = Day t * msPerDay" "0 \<le> offsetAtInstant tz t" "offsetAtInstant tz t < msPerDay"
  shows "getFullYear tz t = YearFromTime t"
  using local_day_east(1) [OF assms] by (simp add: getFullYear_def LocalTime_def YearFromTime_def)

lemma WeekDay_range: "0 \<le> WeekDay t \<and> WeekDay t \<le> 6"
  by (simp add: WeekDay_def)

text \<open>The date part of \<^verbatim>\<open>toISOString\<close> depends on the day only.\<close>

lemma toISOString_date_part:
  assumes "Day u = Day v"
  shows "take 10 (toISOString u) = take 10 (toISOString v)"
proof -
  have y: "YearFromTime u = YearFromTime v"
    using assms by (simp add: YearFromTime_def)
  have dwy: "DayWithinYear u = DayWithinYear v"
    by (simp add: DayWithinYear_def assms y)
  have leap: "InLeapYear u = InLeapYear v"
    by (simp add: InLeapYear_def y)
  have m: "MonthFromTime u = MonthFromTime v"
    by (simp add: MonthFromTime_def dwy leap)
  have d: "DateFromTime u = DateFromTime v"
    by (simp add: DateFromTime_def dwy leap m)
  define A where "A = isoYear (YearFromTime v) @ js ''-'' @ pad2 (MonthFromTime v + 1) @ js ''-''
      @ pad2 (DateFromTime v)"
  have len: "10 \<le> length A"
    by (simp add: A_def isoYear_def pad4_def pad6_def pad2_def js_def)
  obtain r where u: "toISOString u = A @ r"
    by (simp add: toISOString_def A_def y m d)
  obtain r' where v: "toISOString v = A @ r'"
    by (simp add: toISOString_def A_def)
  from len show ?thesis
    by (simp add: u v)
qed

text \<open>
  The week start when the offset at the UTC midnight of today is at or east of Greenwich
  by less than a day: the local day is today, and the week start falls \<open>k\<close> days from
  today minus its weekday index, where \<open>k\<close> counts the whole days between the offset of
  today and the offset that the host applies at the week start.
\<close>

lemma weekStartStr_shift:
  assumes p: "Date_parse s = Some t"
    and o1: "0 \<le> offsetAtInstant tz t" "offsetAtInstant tz t < msPerDay"
    and lo: "k * msPerDay \<le> offsetAtInstant tz t
                - offsetAtLocal tz (t - WeekDay t * msPerDay + offsetAtInstant tz t)"
    and hi: "offsetAtInstant tz t
                - offsetAtLocal tz (t - WeekDay t * msPerDay + offsetAtInstant tz t)
              < (k + 1) * msPerDay"
    and k: "- 1 \<le> k" "k \<le> 1"
  shows "weekStartStr tz t = Some (take 10 (toISOString (t - WeekDay t * msPerDay + k * msPerDay)))"
proof -
  define a where "a = offsetAtInstant tz t"
  define nd where "nd = t - WeekDay t * msPerDay + a"
  define b where "b = offsetAtLocal tz nd"
  define D where "D = Day t - WeekDay t + k"
  define r where "r = a - b - k * msPerDay"
  from Date_parse_day [OF p] have mid: "t = Day t * msPerDay"
    and rng: "- 720000 \<le> Day t" "Day t \<le> 2941000"
    by simp_all
  note loc = local_day_east [OF mid o1, folded a_def]
  have lt: "LocalTime tz t = t + a"
    by (simp add: LocalTime_def a_def)
  have "(Day t - WeekDay t) * msPerDay = t - WeekDay t * msPerDay"
    using mid by (simp add: algebra_simps)
  then have nd: "(Day (t + a) - WeekDay (t + a)) * msPerDay + TimeWithinDay (t + a) = nd"
    by (simp add: loc nd_def)
  have sd: "setDate tz t (getDate tz t - getDay tz t) = TimeClip (nd - b)"
    unfolding setDate_week_start lt nd b_def ..
  from lo hi have r: "0 \<le> r" "r < msPerDay"
    by (simp_all add: r_def a_def b_def nd_def algebra_simps)
  have u: "nd - b = D * msPerDay + r"
    using mid by (simp add: nd_def D_def r_def algebra_simps)
  from r have day: "Day (nd - b) = D"
    unfolding u by (simp add: Day_def msPerDay_def)
  have "\<bar>D * msPerDay + r\<bar> \<le> 8640000000000000"
    using rng WeekDay_range [of t] k r by (simp add: D_def msPerDay_def abs_le_iff)
  then have clip: "TimeClip (nd - b) = Some (nd - b)"
    by (simp add: TimeClip_def u)
  have "Day (D * msPerDay) = D"
    by (simp add: Day_def msPerDay_def)
  with day have "take 10 (toISOString (nd - b)) = take 10 (toISOString (D * msPerDay))"
    by (intro toISOString_date_part) simp
  moreover have "D * msPerDay = t - WeekDay t * msPerDay + k * msPerDay"
    using mid by (simp add: D_def algebra_simps)
  ultimately show ?thesis
    by (simp add: weekStartStr_def sd clip)
qed

lemma weekStartStr_east:
  assumes "Date_parse s = Some t"
    and "0 \<le> offsetAtInstant tz t" "offsetAtInstant tz t < msPerDay"
    and "offsetAtLocal tz (t - WeekDay t * msPerDay + offsetAtInstant tz t) \<le> offsetAtInstant tz t"
    and "offsetAtInstant tz t
           - offsetAtLocal tz (t - WeekDay t * msPerDay + offsetAtInstant tz t) < msPerDay"
  shows "weekStartStr tz t = Some (take 10 (toISOString (t - WeekDay t * msPerDay)))"
  using weekStartStr_shift [OF assms(1-3), of 0] assms(4,5) by simp

lemma weekStartStr_day_before:
  assumes "Date_parse s = Some t"
    and "0 \<le> offsetAtInstant tz t" "offsetAtInstant tz t < msPerDay"
    and "offsetAtInstant tz t < offsetAtLocal tz (t - WeekDay t * msPerDay + offsetAtInstant tz t)"
    and "offsetAtLocal tz (t - WeekDay t * msPerDay + offsetAtInstant tz t)
           \<le> offsetAtInstant tz t + msPerDay"
  shows "weekStartStr tz t = Some (take 10 (toISOString (t - (WeekDay t + 1) * msPerDay)))"
proof -
  have eq: "t - WeekDay t * msPerDay + - 1 * msPerDay = t - (WeekDay t + 1) * msPerDay"
    by (simp add: algebra_simps)
  have "weekStartStr tz t = Some (take 10 (toISOString (t - WeekDay t * msPerDay + - 1 * msPerDay)))"
  proof (rule weekStartStr_shift [OF assms(1-3)])
    show "- 1 * msPerDay \<le> offsetAtInstant tz t
        - offsetAtLocal tz (t - WeekDay t * msPerDay + offsetAtInstant tz t)"
      using assms(5) by simp
    show "offsetAtInstant tz t
        - offsetAtLocal tz (t - WeekDay t * msPerDay + offsetAtInstant tz t) < (- 1 + 1) * msPerDay"
      using assms(4) by simp
  qed simp_all
  then show ?thesis
    by (simp only: eq)
qed

lemma week_start_is_sunday:
  assumes "t = Day t * msPerDay"
  shows "WeekDay (t - WeekDay t * msPerDay) = 0"
    and "t - WeekDay t * msPerDay \<le> t"
    and "t - 6 * msPerDay \<le> t - WeekDay t * msPerDay"
proof -
  have "t - WeekDay t * msPerDay = (Day t - WeekDay t) * msPerDay"
    using assms by (simp add: algebra_simps)
  then have "Day (t - WeekDay t * msPerDay) = Day t - WeekDay t"
    by (simp add: Day_def msPerDay_def)
  then show "WeekDay (t - WeekDay t * msPerDay) = 0"
    unfolding WeekDay_def by presburger
  show "t - WeekDay t * msPerDay \<le> t"
    using WeekDay_range [of t] by (simp add: msPerDay_def)
  show "t - 6 * msPerDay \<le> t - WeekDay t * msPerDay"
    using WeekDay_range [of t] by (simp add: msPerDay_def)
qed

section \<open>Years: the search finds the year of a day\<close>

lemma div_succ:
  fixes a n :: int
  assumes "0 < n"
  shows "(a + 1) div n = a div n + (if (a + 1) mod n = 0 then 1 else 0)"
proof -
  define q where "q = a div n"
  define r where "r = a mod n"
  have a: "a = n * q + r"
    by (simp add: q_def r_def)
  have r: "0 \<le> r" "r < n"
    using assms by (simp_all add: r_def)
  show ?thesis
  proof (cases "r + 1 = n")
    case True
    have eq: "a + 1 = n * (q + 1) + 0"
      using a True by (simp add: algebra_simps)
    have "(a + 1) div n = q + 1"
      using eq by (rule int_div_pos_eq) (use assms in simp_all)
    moreover have "(a + 1) mod n = 0"
      using eq by (rule int_mod_pos_eq) (use assms in simp_all)
    ultimately show ?thesis
      by (simp add: q_def)
  next
    case False
    with r have lt: "r + 1 < n" by simp
    have eq: "a + 1 = n * q + (r + 1)"
      using a by simp
    from r have nonneg: "0 \<le> r + 1" by simp
    have "(a + 1) div n = q"
      using eq nonneg lt by (rule int_div_pos_eq)
    moreover have "(a + 1) mod n = r + 1"
      using eq nonneg lt by (rule int_mod_pos_eq)
    ultimately show ?thesis
      using r by (simp add: q_def)
  qed
qed

lemma leap_steps:
  fixes y :: int
  shows "(y - 1968) div 4 = (y - 1969) div 4 + (if y mod 4 = 0 then 1 else 0)"
    and "(y - 1900) div 100 = (y - 1901) div 100 + (if y mod 100 = 0 then 1 else 0)"
    and "(y - 1600) div 400 = (y - 1601) div 400 + (if y mod 400 = 0 then 1 else 0)"
proof -
  have m4: "(y - 1968) mod 4 = y mod 4"
    using mod_diff_eq [of y 4 1968] by simp
  have m100: "(y - 1900) mod 100 = y mod 100"
    using mod_diff_eq [of y 100 1900] by simp
  have m400: "(y - 1600) mod 400 = y mod 400"
    using mod_diff_eq [of y 400 1600] by simp
  show "(y - 1968) div 4 = (y - 1969) div 4 + (if y mod 4 = 0 then 1 else 0)"
    using div_succ [of 4 "y - 1969"] m4 by simp
  show "(y - 1900) div 100 = (y - 1901) div 100 + (if y mod 100 = 0 then 1 else 0)"
    using div_succ [of 100 "y - 1901"] m100 by simp
  show "(y - 1600) div 400 = (y - 1601) div 400 + (if y mod 400 = 0 then 1 else 0)"
    using div_succ [of 400 "y - 1601"] m400 by simp
qed

lemma century_is_leap_candidate:
  fixes y :: int
  shows "y mod 100 = 0 \<Longrightarrow> y mod 4 = 0" and "y mod 400 = 0 \<Longrightarrow> y mod 100 = 0"
proof -
  assume "y mod 100 = 0"
  then have "100 dvd y" by (simp add: dvd_eq_mod_eq_0)
  then have "4 dvd y" by (rule dvd_trans [rotated]) simp
  then show "y mod 4 = 0" by (simp add: dvd_eq_mod_eq_0)
next
  assume "y mod 400 = 0"
  then have "400 dvd y" by (simp add: dvd_eq_mod_eq_0)
  then have "100 dvd y" by (rule dvd_trans [rotated]) simp
  then show "y mod 100 = 0" by (simp add: dvd_eq_mod_eq_0)
qed

lemma DayFromYear_step: "DayFromYear (y + 1) = DayFromYear y + DaysInYear y"
proof -
  have sh: "y + 1 - 1970 = y - 1970 + 1" "y + 1 - 1969 = y - 1968"
      "y + 1 - 1901 = y - 1900" "y + 1 - 1601 = y - 1600"
    by simp_all
  show ?thesis
    unfolding DayFromYear_def DaysInYear_def sh leap_steps
    using century_is_leap_candidate [of y] by (simp add: algebra_simps)
qed

lemma DaysInYear_range: "365 \<le> DaysInYear y \<and> DaysInYear y \<le> 366"
  by (simp add: DaysInYear_def)

lemma DayFromYear_mono: "y \<le> y' \<Longrightarrow> DayFromYear y \<le> DayFromYear y'"
proof (induction y' rule: int_ge_induct)
  case base
  show ?case by simp
next
  case (step i)
  with DayFromYear_step [of i] DaysInYear_range [of i] show ?case
    by linarith
qed

lemma DayFromYear_1970: "DayFromYear 1970 = 0"
  by (simp add: DayFromYear_def)

lemma DayFromYear_upper: "0 \<le> k \<Longrightarrow> DayFromYear (1970 + k) \<le> 366 * k"
proof (induction k rule: int_ge_induct)
  case base
  show ?case by (simp add: DayFromYear_1970)
next
  case (step i)
  have "DayFromYear (1970 + (i + 1)) = DayFromYear (1970 + i) + DaysInYear (1970 + i)"
    using DayFromYear_step [of "1970 + i"] by (simp add: algebra_simps)
  with step.IH DaysInYear_range [of "1970 + i"] show ?case
    by (simp add: algebra_simps)
qed

lemma DayFromYear_lower: "k \<le> 0 \<Longrightarrow> DayFromYear (1970 + k) \<le> 365 * k"
proof (induction k rule: int_le_induct)
  case base
  show ?case by (simp add: DayFromYear_1970)
next
  case (step i)
  have "DayFromYear (1970 + i) = DayFromYear (1970 + (i - 1)) + DaysInYear (1970 + (i - 1))"
    using DayFromYear_step [of "1970 + (i - 1)"] by (simp add: algebra_simps)
  with step.IH DaysInYear_range [of "1970 + (i - 1)"] show ?case
    by (simp add: algebra_simps)
qed

lemma yearUp_finds:
  "DayFromYear y \<le> d \<Longrightarrow>
     DayFromYear (yearUp d y) \<le> d \<and> d < DayFromYear (yearUp d y + 1)"
proof (induction d y rule: yearUp.induct)
  case (1 d y)
  show ?case
  proof (cases "DayFromYear (y + 1) \<le> d")
    case True
    from "1.IH" [OF True True] show ?thesis
      by (subst (1 2) yearUp.simps) (simp add: True)
  next
    case False
    with "1.prems" show ?thesis
      by (subst (1 2) yearUp.simps) simp
  qed
qed

text \<open>YearFromTime is the year whose days include the day of \<open>t\<close>.\<close>

lemma YearFromDay_finds:
  "DayFromYear (YearFromDay d) \<le> d \<and> d < DayFromYear (YearFromDay d + 1)"
proof -
  have start: "DayFromYear (1970 + (if 0 \<le> d then d div 366 else d div 365)) \<le> d"
  proof (cases "0 \<le> d")
    case True
    then have k: "0 \<le> d div 366" "366 * (d div 366) \<le> d"
      by simp_all
    from DayFromYear_upper [OF k(1)] k(2) True show ?thesis
      by simp
  next
    case False
    then have k: "d div 365 \<le> 0" "365 * (d div 365) \<le> d"
      by simp_all
    from DayFromYear_lower [OF k(1)] k(2) False show ?thesis
      by simp
  qed
  from yearUp_finds [OF start] show ?thesis
    by (simp add: YearFromDay_def)
qed

lemma YearFromDay_unique:
  assumes "DayFromYear y \<le> d" "d < DayFromYear (y + 1)"
  shows "YearFromDay d = y"
proof (rule ccontr)
  assume ne: "YearFromDay d \<noteq> y"
  note f = YearFromDay_finds [of d]
  show False
  proof (cases "YearFromDay d < y")
    case True
    then have "DayFromYear (YearFromDay d + 1) \<le> DayFromYear y"
      by (intro DayFromYear_mono) simp
    with f assms show False by linarith
  next
    case False
    with ne have "DayFromYear (y + 1) \<le> DayFromYear (YearFromDay d)"
      by (intro DayFromYear_mono) simp
    with f assms show False by linarith
  qed
qed


section \<open>The order of date strings is the order of the days\<close>

lemma monthStart_next:
  assumes "1 \<le> m" "m \<le> 11"
  shows "monthStart (if DaysInYear y = 366 then 1 else 0) m =
     monthStart (if DaysInYear y = 366 then 1 else 0) (m - 1) + DaysInMonth y m"
proof -
  from assms have "m = 1 \<or> m = 2 \<or> m = 3 \<or> m = 4 \<or> m = 5 \<or> m = 6 \<or> m = 7 \<or> m = 8
      \<or> m = 9 \<or> m = 10 \<or> m = 11"
    by arith
  then show ?thesis
    by (elim disjE) (simp_all add: monthStart_def DaysInMonth_def)
qed

lemma DaysInMonth_pos: "28 \<le> DaysInMonth y m"
  by (simp add: DaysInMonth_def)

lemma monthStart_mono:
  assumes "1 \<le> m" "m \<le> m'" "m' \<le> 12"
  shows "monthStart (if DaysInYear y = 366 then 1 else 0) (m - 1)
       \<le> monthStart (if DaysInYear y = 366 then 1 else 0) (m' - 1)"
  using assms(2,1,3)
proof (induction m' rule: int_ge_induct)
  case base
  show ?case by simp
next
  case (step i)
  then have "1 \<le> i" "i \<le> 11"
    by simp_all
  from monthStart_next [OF this, of y] DaysInMonth_pos [of y i] step show ?case
    by simp
qed

lemma monthStart_last:
  "monthStart (if DaysInYear y = 366 then 1 else 0) 11 + 31 = DaysInYear y"
  by (simp add: monthStart_def DaysInYear_def)

lemma DaysInMonth_12: "DaysInMonth y 12 = 31"
  by (simp add: DaysInMonth_def)

text \<open>The day of a valid calendar date, as \<open>MakeDay\<close> computes it.\<close>

lemma MakeDay_valid:
  assumes "1 \<le> m" "m \<le> 12"
  shows "MakeDay y (m - 1) d =
     DayFromYear y + monthStart (if DaysInYear y = 366 then 1 else 0) (m - 1) + d - 1"
proof -
  from assms have "(m - 1) div 12 = 0" "(m - 1) mod 12 = m - 1"
    by simp_all
  then show ?thesis
    by (simp add: MakeDay_def Let_def)
qed

lemma MakeDay_within_year:
  assumes "1 \<le> m" "m \<le> 12" "1 \<le> d" "d \<le> DaysInMonth y m"
  shows "DayFromYear y \<le> MakeDay y (m - 1) d" and "MakeDay y (m - 1) d < DayFromYear (y + 1)"
proof -
  let ?l = "if DaysInYear y = 366 then 1 else 0 :: int"
  have lo: "0 \<le> monthStart ?l (m - 1)"
    by (rule monthStart_bounds [THEN conjunct1]) simp_all
  with assms(3) show "DayFromYear y \<le> MakeDay y (m - 1) d"
    by (simp add: MakeDay_valid [OF assms(1,2)])
  have "monthStart ?l (m - 1) + d \<le> DaysInYear y"
  proof (cases "m = 12")
    case True
    with assms(4) monthStart_last [of y] show ?thesis
      by (simp add: DaysInMonth_12)
  next
    case False
    with assms have m: "1 \<le> m" "m \<le> 11" "1 \<le> m + 1" "m + 1 \<le> 12" "12 \<le> (12::int)"
      by simp_all
    from monthStart_mono [OF m(3,4) m(5), of y] have "monthStart ?l m \<le> monthStart ?l 11"
      by simp
    with monthStart_next [OF m(1,2), of y] assms(4) monthStart_last [of y] show ?thesis
      by linarith
  qed
  then show "MakeDay y (m - 1) d < DayFromYear (y + 1)"
    by (simp add: MakeDay_valid [OF assms(1,2)] DayFromYear_step)
qed

lemma MakeDay_strict:
  assumes v: "1 \<le> m" "m \<le> 12" "1 \<le> d" "d \<le> DaysInMonth y m"
    and v': "1 \<le> m'" "m' \<le> 12" "1 \<le> d'" "d' \<le> DaysInMonth y' m'"
    and lt: "y < y' \<or> (y = y' \<and> (m < m' \<or> (m = m' \<and> d < d')))"
  shows "MakeDay y (m - 1) d < MakeDay y' (m' - 1) d'"
proof -
  from lt consider "y < y'" | "y = y'" "m < m'" | "y = y'" "m = m'" "d < d'"
    by blast
  then show ?thesis
  proof cases
    case 1
    then have "DayFromYear (y + 1) \<le> DayFromYear y'"
      by (intro DayFromYear_mono) simp
    with MakeDay_within_year(2) [OF v] MakeDay_within_year(1) [OF v'] show ?thesis
      by linarith
  next
    case 2
    let ?l = "if DaysInYear y = 366 then 1 else 0 :: int"
    from 2 v v' have m: "1 \<le> m" "m \<le> 11" "1 \<le> m + 1" "m + 1 \<le> m'"
      by simp_all
    from monthStart_mono [OF m(3,4) v'(2), of y] have "monthStart ?l m \<le> monthStart ?l (m' - 1)"
      by simp
    with monthStart_next [OF m(1,2), of y] v(4) v'(3) 2(1) show ?thesis
      by (simp add: MakeDay_valid [OF v(1,2)] MakeDay_valid [OF v'(1,2)])
  next
    case 3
    then show ?thesis
      by (simp add: MakeDay_valid [OF v'(1,2)])
  qed
qed

lemma MakeDay_order:
  assumes v: "1 \<le> m" "m \<le> 12" "1 \<le> d" "d \<le> DaysInMonth y m"
    and v': "1 \<le> m'" "m' \<le> 12" "1 \<le> d'" "d' \<le> DaysInMonth y' m'"
  shows "MakeDay y (m - 1) d < MakeDay y' (m' - 1) d' \<longleftrightarrow>
           y < y' \<or> (y = y' \<and> (m < m' \<or> (m = m' \<and> d < d')))"
proof
  assume "y < y' \<or> (y = y' \<and> (m < m' \<or> (m = m' \<and> d < d')))"
  from MakeDay_strict [OF v v' this] show "MakeDay y (m - 1) d < MakeDay y' (m' - 1) d'" .
next
  assume lt: "MakeDay y (m - 1) d < MakeDay y' (m' - 1) d'"
  show "y < y' \<or> (y = y' \<and> (m < m' \<or> (m = m' \<and> d < d')))"
  proof (rule ccontr)
    assume "\<not> ?thesis"
    then have "(y' < y \<or> (y' = y \<and> (m' < m \<or> (m' = m \<and> d' < d)))) \<or> (y = y' \<and> m = m' \<and> d = d')"
      by linarith
    then show False
    proof
      assume "y' < y \<or> (y' = y \<and> (m' < m \<or> (m' = m \<and> d' < d)))"
      from MakeDay_strict [OF v' v this] lt show False
        by simp
    next
      assume "y = y' \<and> m = m' \<and> d = d'"
      with lt show False by simp
    qed
  qed
qed


lemma digits2_less:
  assumes "isDigit a" "isDigit b" "isDigit a'" "isDigit b'"
  shows "[a, b] < [a', b'] \<longleftrightarrow> 10 * digitVal a + digitVal b < 10 * digitVal a' + digitVal b'"
  using assms unfolding isDigit_def digitVal_def by auto

lemma digits2_order:
  assumes "isDigit a" "isDigit b" "isDigit a'" "isDigit b'"
  shows "[a, b] < [a', b'] \<longleftrightarrow> 10 * digitVal a + digitVal b < 10 * digitVal a' + digitVal b'"
    and "[a, b] = [a', b'] \<longleftrightarrow> 10 * digitVal a + digitVal b = 10 * digitVal a' + digitVal b'"
proof -
  note fwd = digits2_less [OF assms]
  note bwd = digits2_less [OF assms(3,4,1,2)]
  show "[a, b] < [a', b'] \<longleftrightarrow> 10 * digitVal a + digitVal b < 10 * digitVal a' + digitVal b'"
    by (rule fwd)
  have "[a, b] = [a', b'] \<longleftrightarrow> \<not> [a, b] < [a', b'] \<and> \<not> [a', b'] < [a, b]"
    by (metis less_irrefl linorder_less_linear)
  also have "\<dots> \<longleftrightarrow> 10 * digitVal a + digitVal b = 10 * digitVal a' + digitVal b'"
    unfolding fwd bwd by linarith
  finally show "[a, b] = [a', b'] \<longleftrightarrow> 10 * digitVal a + digitVal b = 10 * digitVal a' + digitVal b'" .
qed

lemma digits2_range:
  assumes "isDigit a" "isDigit b"
  shows "0 \<le> 10 * digitVal a + digitVal b" and "10 * digitVal a + digitVal b \<le> 99"
  using assms unfolding isDigit_def digitVal_def by auto

lemma pair_less:
  fixes hi lo hi' lo' :: int
  assumes "0 \<le> lo" "lo \<le> 99" "0 \<le> lo'" "lo' \<le> 99"
  shows "100 * hi + lo < 100 * hi' + lo' \<longleftrightarrow> hi < hi' \<or> (hi = hi' \<and> lo < lo')"
  using assms by auto

lemma pair_order:
  fixes hi lo hi' lo' :: int
  assumes "0 \<le> lo" "lo \<le> 99" "0 \<le> lo'" "lo' \<le> 99"
  shows "100 * hi + lo < 100 * hi' + lo' \<longleftrightarrow> hi < hi' \<or> (hi = hi' \<and> lo < lo')"
    and "100 * hi + lo = 100 * hi' + lo' \<longleftrightarrow> hi = hi' \<and> lo = lo'"
proof -
  note fwd = pair_less [OF assms, of hi hi']
  note bwd = pair_less [OF assms(3,4,1,2), of hi' hi]
  show "100 * hi + lo < 100 * hi' + lo' \<longleftrightarrow> hi < hi' \<or> (hi = hi' \<and> lo < lo')"
    by (rule fwd)
  have "100 * hi + lo = 100 * hi' + lo' \<longleftrightarrow>
      \<not> 100 * hi + lo < 100 * hi' + lo' \<and> \<not> 100 * hi' + lo' < 100 * hi + lo"
    by linarith
  also have "\<dots> \<longleftrightarrow> hi = hi' \<and> lo = lo'"
    unfolding fwd bwd by linarith
  finally show "100 * hi + lo = 100 * hi' + lo' \<longleftrightarrow> hi = hi' \<and> lo = lo'" .
qed

lemma digits4_order:
  assumes "isDigit a" "isDigit b" "isDigit c" "isDigit d"
    and "isDigit a'" "isDigit b'" "isDigit c'" "isDigit d'"
  shows "[a, b, c, d] < [a', b', c', d'] \<longleftrightarrow>
      1000 * digitVal a + 100 * digitVal b + 10 * digitVal c + digitVal d
        < 1000 * digitVal a' + 100 * digitVal b' + 10 * digitVal c' + digitVal d'"
    and "[a, b, c, d] = [a', b', c', d'] \<longleftrightarrow>
      1000 * digitVal a + 100 * digitVal b + 10 * digitVal c + digitVal d
        = 1000 * digitVal a' + 100 * digitVal b' + 10 * digitVal c' + digitVal d'"
proof -
  let ?hi = "10 * digitVal a + digitVal b" and ?lo = "10 * digitVal c + digitVal d"
  let ?hi' = "10 * digitVal a' + digitVal b'" and ?lo' = "10 * digitVal c' + digitVal d'"
  have split: "[a, b, c, d] < [a', b', c', d'] \<longleftrightarrow>
      [a, b] < [a', b'] \<or> ([a, b] = [a', b'] \<and> [c, d] < [c', d'])"
    "[a, b, c, d] = [a', b', c', d'] \<longleftrightarrow> [a, b] = [a', b'] \<and> [c, d] = [c', d']"
    by auto
  have num: "1000 * digitVal a + 100 * digitVal b + 10 * digitVal c + digitVal d = 100 * ?hi + ?lo"
    "1000 * digitVal a' + 100 * digitVal b' + 10 * digitVal c' + digitVal d' = 100 * ?hi' + ?lo'"
    by simp_all
  note r = digits2_range [OF assms(3,4)] digits2_range [OF assms(7,8)]
  show "[a, b, c, d] < [a', b', c', d'] \<longleftrightarrow>
      1000 * digitVal a + 100 * digitVal b + 10 * digitVal c + digitVal d
        < 1000 * digitVal a' + 100 * digitVal b' + 10 * digitVal c' + digitVal d'"
    unfolding num split(1) pair_order(1) [OF r]
      digits2_order [OF assms(1,2,5,6)] digits2_order [OF assms(3,4,7,8)] ..
  show "[a, b, c, d] = [a', b', c', d'] \<longleftrightarrow>
      1000 * digitVal a + 100 * digitVal b + 10 * digitVal c + digitVal d
        = 1000 * digitVal a' + 100 * digitVal b' + 10 * digitVal c' + digitVal d'"
    unfolding num split(2) pair_order(2) [OF r]
      digits2_order [OF assms(1,2,5,6)] digits2_order [OF assms(3,4,7,8)] ..
qed

lemma Date_parse_fields:
  assumes "Date_parse s = Some t"
  obtains y1 y2 y3 y4 m1 m2 d1 d2 where
    "s = [y1, y2, y3, y4, 45, m1, m2, 45, d1, d2]"
    and "isDigit y1" "isDigit y2" "isDigit y3" "isDigit y4"
    and "isDigit m1" "isDigit m2" "isDigit d1" "isDigit d2"
    and "1 \<le> 10 * digitVal m1 + digitVal m2" "10 * digitVal m1 + digitVal m2 \<le> 12"
    and "1 \<le> 10 * digitVal d1 + digitVal d2"
    and "10 * digitVal d1 + digitVal d2 \<le>
           DaysInMonth (1000 * digitVal y1 + 100 * digitVal y2 + 10 * digitVal y3 + digitVal y4)
             (10 * digitVal m1 + digitVal m2)"
    and "t = MakeDay (1000 * digitVal y1 + 100 * digitVal y2 + 10 * digitVal y3 + digitVal y4)
               (10 * digitVal m1 + digitVal m2 - 1) (10 * digitVal d1 + digitVal d2) * msPerDay"
proof -
  from assms obtain y1 y2 y3 y4 h1 m1 m2 h2 d1 d2 where
    s: "s = [y1, y2, y3, y4, h1, m1, m2, h2, d1, d2]"
    by (auto simp: Date_parse_def split: list.splits)
  from assms have h: "h1 = 45" "h2 = 45"
    and dig: "isDigit y1" "isDigit y2" "isDigit y3" "isDigit y4"
      "isDigit m1" "isDigit m2" "isDigit d1" "isDigit d2"
    and ok: "1 \<le> 10 * digitVal m1 + digitVal m2" "10 * digitVal m1 + digitVal m2 \<le> 12"
      "1 \<le> 10 * digitVal d1 + digitVal d2"
      "10 * digitVal d1 + digitVal d2 \<le>
           DaysInMonth (1000 * digitVal y1 + 100 * digitVal y2 + 10 * digitVal y3 + digitVal y4)
             (10 * digitVal m1 + digitVal m2)"
    and clip: "TimeClip (MakeDate (MakeDay
        (1000 * digitVal y1 + 100 * digitVal y2 + 10 * digitVal y3 + digitVal y4)
        (10 * digitVal m1 + digitVal m2 - 1) (10 * digitVal d1 + digitVal d2)) 0) = Some t"
    unfolding s by (auto simp: Date_parse_def Let_def split: if_splits)
  from clip have "t = MakeDay (1000 * digitVal y1 + 100 * digitVal y2 + 10 * digitVal y3 + digitVal y4)
               (10 * digitVal m1 + digitVal m2 - 1) (10 * digitVal d1 + digitVal d2) * msPerDay"
    by (auto simp: TimeClip_def MakeDate_def split: if_splits)
  then have teq: "t = MakeDay (1000 * digitVal y1 + 100 * digitVal y2 + 10 * digitVal y3 + digitVal y4)
               (10 * digitVal m1 + digitVal m2 - 1) (10 * digitVal d1 + digitVal d2) * msPerDay" .
  from s h have s45: "s = [y1, y2, y3, y4, 45, m1, m2, 45, d1, d2]"
    by simp
  show thesis
    by (rule that [OF s45 dig ok teq])
qed

text \<open>
  For two date strings that parse, the string order used by the source's comparisons
  is the order of the days they denote.
\<close>

lemma Date_parse_order:
  assumes "Date_parse s = Some t" and "Date_parse s' = Some t'"
  shows "s < s' \<longleftrightarrow> t < t'"
proof -
  from Date_parse_fields [OF assms(1)] obtain y1 y2 y3 y4 m1 m2 d1 d2 where
    s: "s = [y1, y2, y3, y4, 45, m1, m2, 45, d1, d2]"
    and dy: "isDigit y1" "isDigit y2" "isDigit y3" "isDigit y4"
    and dm: "isDigit m1" "isDigit m2" and dd: "isDigit d1" "isDigit d2"
    and v: "1 \<le> 10 * digitVal m1 + digitVal m2" "10 * digitVal m1 + digitVal m2 \<le> 12"
      "1 \<le> 10 * digitVal d1 + digitVal d2"
      "10 * digitVal d1 + digitVal d2 \<le>
           DaysInMonth (1000 * digitVal y1 + 100 * digitVal y2 + 10 * digitVal y3 + digitVal y4)
             (10 * digitVal m1 + digitVal m2)"
    and t: "t = MakeDay (1000 * digitVal y1 + 100 * digitVal y2 + 10 * digitVal y3 + digitVal y4)
               (10 * digitVal m1 + digitVal m2 - 1) (10 * digitVal d1 + digitVal d2) * msPerDay"
    by blast
  from Date_parse_fields [OF assms(2)] obtain z1 z2 z3 z4 n1 n2 e1 e2 where
    s': "s' = [z1, z2, z3, z4, 45, n1, n2, 45, e1, e2]"
    and dy': "isDigit z1" "isDigit z2" "isDigit z3" "isDigit z4"
    and dm': "isDigit n1" "isDigit n2" and dd': "isDigit e1" "isDigit e2"
    and v': "1 \<le> 10 * digitVal n1 + digitVal n2" "10 * digitVal n1 + digitVal n2 \<le> 12"
      "1 \<le> 10 * digitVal e1 + digitVal e2"
      "10 * digitVal e1 + digitVal e2 \<le>
           DaysInMonth (1000 * digitVal z1 + 100 * digitVal z2 + 10 * digitVal z3 + digitVal z4)
             (10 * digitVal n1 + digitVal n2)"
    and t': "t' = MakeDay (1000 * digitVal z1 + 100 * digitVal z2 + 10 * digitVal z3 + digitVal z4)
               (10 * digitVal n1 + digitVal n2 - 1) (10 * digitVal e1 + digitVal e2) * msPerDay"
    by blast
  have "s < s' \<longleftrightarrow>
      [y1, y2, y3, y4] < [z1, z2, z3, z4]
      \<or> ([y1, y2, y3, y4] = [z1, z2, z3, z4]
          \<and> ([m1, m2] < [n1, n2] \<or> ([m1, m2] = [n1, n2] \<and> [d1, d2] < [e1, e2])))"
    unfolding s s' by auto
  also have "\<dots> \<longleftrightarrow>
      MakeDay (1000 * digitVal y1 + 100 * digitVal y2 + 10 * digitVal y3 + digitVal y4)
               (10 * digitVal m1 + digitVal m2 - 1) (10 * digitVal d1 + digitVal d2)
      < MakeDay (1000 * digitVal z1 + 100 * digitVal z2 + 10 * digitVal z3 + digitVal z4)
               (10 * digitVal n1 + digitVal n2 - 1) (10 * digitVal e1 + digitVal e2)"
    unfolding MakeDay_order [OF v v'] digits4_order [OF dy dy']
      digits2_order [OF dm dm'] digits2_order [OF dd dd'] ..
  also have "\<dots> \<longleftrightarrow> t < t'"
    unfolding t t' by (simp add: msPerDay_def)
  finally show ?thesis .
qed

lemma Date_parse_inj:
  assumes "Date_parse s = Some t" and "Date_parse s' = Some t'"
  shows "s = s' \<longleftrightarrow> t = t'"
  using Date_parse_order [OF assms] Date_parse_order [OF assms(2,1)] assms
  by (metis less_irrefl linorder_less_linear option.inject)


section \<open>The ISO date of a day parses back to that day\<close>

lemma digit_roundtrip:
  assumes "0 \<le> d" "d \<le> 9"
  shows "isDigit (digitChar d)" and "digitVal (digitChar d) = d"
  using assms by (simp_all add: isDigit_def digitChar_def digitVal_def)

lemma mod10_eq: "(n::int) mod 10 = n - 10 * (n div 10)"
  by (simp add: minus_mult_div_eq_mod)

lemma pad2_parse:
  assumes "0 \<le> n" "n \<le> 99"
  shows "pad2 n = [digitChar (n div 10), digitChar (n mod 10)]"
    and "10 * digitVal (digitChar (n div 10)) + digitVal (digitChar (n mod 10)) = n"
    and "isDigit (digitChar (n div 10))" "isDigit (digitChar (n mod 10))"
proof -
  from assms have q: "0 \<le> n div 10" "n div 10 \<le> 9"
    by simp_all
  then have m: "n div 10 mod 10 = n div 10"
    by simp
  show "pad2 n = [digitChar (n div 10), digitChar (n mod 10)]"
    by (simp add: pad2_def m)
  from digit_roundtrip [OF q] digit_roundtrip [of "n mod 10"]
  show "10 * digitVal (digitChar (n div 10)) + digitVal (digitChar (n mod 10)) = n"
    and "isDigit (digitChar (n div 10))" "isDigit (digitChar (n mod 10))"
    by (simp_all add: mod10_eq [of n])
qed

lemma pad4_parse:
  assumes "0 \<le> n" "n \<le> 9999"
  shows "pad4 n = [digitChar (n div 100 div 10), digitChar (n div 100 mod 10),
                   digitChar (n mod 100 div 10), digitChar (n mod 10)]"
    and "1000 * digitVal (digitChar (n div 100 div 10)) + 100 * digitVal (digitChar (n div 100 mod 10))
          + 10 * digitVal (digitChar (n mod 100 div 10)) + digitVal (digitChar (n mod 10)) = n"
    and "isDigit (digitChar (n div 100 div 10))" "isDigit (digitChar (n div 100 mod 10))"
      "isDigit (digitChar (n mod 100 div 10))" "isDigit (digitChar (n mod 10))"
proof -
  from assms have hi: "0 \<le> n div 100" "n div 100 \<le> 99"
    by simp_all
  have lo: "0 \<le> n mod 100" "n mod 100 \<le> 99"
    by simp_all
  have dec: "n mod 100 = 10 * (n div 10 mod 10) + n mod 10"
    using zmod_zmult2_eq [of 10 n 10] by simp
  have r: "0 \<le> n mod 10" "n mod 10 < 10"
    by simp_all
  have tens: "n mod 100 div 10 = n div 10 mod 10"
    using dec r by (rule int_div_pos_eq)
  have ones: "n mod 100 mod 10 = n mod 10"
    using dec r by (rule int_mod_pos_eq)
  have "pad2 n = [digitChar (n mod 100 div 10), digitChar (n mod 10)]"
    by (simp only: pad2_def tens)
  then show "pad4 n = [digitChar (n div 100 div 10), digitChar (n div 100 mod 10),
                   digitChar (n mod 100 div 10), digitChar (n mod 10)]"
    by (simp only: pad4_def pad2_parse(1) [OF hi] append.simps)
  define A where "A = digitVal (digitChar (n div 100 div 10))"
  define B where "B = digitVal (digitChar (n div 100 mod 10))"
  define C where "C = digitVal (digitChar (n mod 100 div 10))"
  define D where "D = digitVal (digitChar (n mod 10))"
  have h: "10 * A + B = n div 100"
    unfolding A_def B_def by (rule pad2_parse(2) [OF hi])
  have l: "10 * C + D = n mod 100"
    unfolding C_def D_def using pad2_parse(2) [OF lo] by (simp only: ones)
  have n: "100 * (n div 100) + n mod 100 = n"
    by simp
  from h l n have "1000 * A + 100 * B + 10 * C + D = n"
    by linarith
  then show "1000 * digitVal (digitChar (n div 100 div 10)) + 100 * digitVal (digitChar (n div 100 mod 10))
          + 10 * digitVal (digitChar (n mod 100 div 10)) + digitVal (digitChar (n mod 10)) = n"
    by (simp only: A_def B_def C_def D_def)
  show "isDigit (digitChar (n div 100 div 10))" "isDigit (digitChar (n div 100 mod 10))"
    by (rule pad2_parse(3,4) [OF hi])+
  show "isDigit (digitChar (n mod 100 div 10))"
    by (rule pad2_parse(3) [OF lo])
  show "isDigit (digitChar (n mod 10))"
    using pad2_parse(4) [OF lo] by (simp only: ones)
qed

lemma DayWithinYear_range:
  "0 \<le> DayWithinYear t \<and> DayWithinYear t < DaysInYear (YearFromTime t)"
  using YearFromDay_finds [of "Day t"] DayFromYear_step [of "YearFromTime t"]
  by (simp add: DayWithinYear_def YearFromTime_def)

lemma DaysInYear_leap: "DaysInYear y = 365 + (if DaysInYear y = 366 then 1 else 0)"
  by (simp add: DaysInYear_def)

lemma DateFromTime_range:
  "1 \<le> DateFromTime t \<and> DateFromTime t \<le> DaysInMonth (YearFromTime t) (MonthFromTime t + 1)"
proof -
  define l :: int where "l = (if DaysInYear (YearFromTime t) = 366 then 1 else 0)"
  define dy where "dy = DayWithinYear t"
  from DayWithinYear_range [of t] DaysInYear_leap [of "YearFromTime t"]
  have r: "0 \<le> dy" "dy < 365 + l"
    by (simp_all add: dy_def l_def)
  have l: "l = 0 \<or> l = 1"
    by (simp add: l_def)
  have leap: "DaysInYear (YearFromTime t) = 366 \<longleftrightarrow> l = 1"
    by (simp add: l_def)
  have "InLeapYear t = l"
    by (simp add: InLeapYear_def l_def)
  then show ?thesis
    using r l
    unfolding DateFromTime_def MonthFromTime_def dy_def [symmetric] Let_def DaysInMonth_def leap
    by (auto simp: monthStart_def)
qed

lemma MakeDay_fields: "MakeDay (YearFromTime t) (MonthFromTime t) (DateFromTime t) = Day t"
proof -
  have mn: "MonthFromTime t div 12 = 0" "MonthFromTime t mod 12 = MonthFromTime t"
    using MonthFromTime_range [of t] by simp_all
  show ?thesis
    by (simp add: MakeDay_def Let_def mn DateFromTime_def DayWithinYear_def InLeapYear_def)
qed

lemma toISOString_date:
  assumes "0 \<le> YearFromTime u" "YearFromTime u \<le> 9999"
  shows "take 10 (toISOString u) =
     pad4 (YearFromTime u) @ [45] @ pad2 (MonthFromTime u + 1) @ [45] @ pad2 (DateFromTime u)"
  using assms by (simp add: toISOString_def isoYear_def pad4_def pad2_def js_def)

lemma toISOString_parse:
  assumes mid: "u = Day u * msPerDay" and yr: "0 \<le> YearFromTime u" "YearFromTime u \<le> 9999"
  shows "Date_parse (take 10 (toISOString u)) = Some u"
proof -
  let ?Y = "YearFromTime u" and ?M = "MonthFromTime u + 1" and ?D = "DateFromTime u"
  have m: "1 \<le> ?M" "?M \<le> 12" "0 \<le> ?M" "?M \<le> 99"
    using MonthFromTime_range [of u] by simp_all
  have d: "1 \<le> ?D" "?D \<le> DaysInMonth ?Y ?M"
    using DateFromTime_range [of u] by simp_all
  with DaysInMonth_le [of ?Y ?M] have d99: "0 \<le> ?D" "?D \<le> 99"
    by simp_all
  have str: "take 10 (toISOString u) =
      [digitChar (?Y div 100 div 10), digitChar (?Y div 100 mod 10),
       digitChar (?Y mod 100 div 10), digitChar (?Y mod 10), 45,
       digitChar (?M div 10), digitChar (?M mod 10), 45,
       digitChar (?D div 10), digitChar (?D mod 10)]"
    by (simp add: toISOString_date [OF yr] pad4_parse(1) [OF yr] pad2_parse(1) [OF m(3,4)]
        pad2_parse(1) [OF d99])
  have day: "MakeDay ?Y (?M - 1) ?D = Day u"
    using MakeDay_fields [of u] by simp
  have clip: "TimeClip (Day u * msPerDay) = Some (Day u * msPerDay)"
  proof -
    from MakeDay_bounds [OF yr m(1,2) d(1)] d(2) DaysInMonth_le [of ?Y ?M] day
    have "- 720000 \<le> Day u \<and> Day u \<le> 2941000"
      by simp
    then have "\<bar>Day u * msPerDay\<bar> \<le> 8640000000000000"
      by (simp add: msPerDay_def abs_le_iff)
    then show ?thesis
      by (simp add: TimeClip_def)
  qed
  have "Date_parse (take 10 (toISOString u)) = TimeClip (MakeDate (MakeDay ?Y (?M - 1) ?D) 0)"
    unfolding str using d m(1,2)
    by (simp add: Date_parse_def Let_def pad4_parse(2-) [OF yr] pad2_parse(2-) [OF m(3,4)]
        pad2_parse(2-) [OF d99])
  also have "\<dots> = TimeClip (Day u * msPerDay)"
    by (simp only: day MakeDate_def add_0_right)
  also have "\<dots> = Some (Day u * msPerDay)"
    by (rule clip)
  also have "\<dots> = Some u"
    by (simp only: mid [symmetric])
  finally show ?thesis .
qed


section \<open>What the window bounds denote\<close>

lemma Date_parse_le:
  assumes "Date_parse s = Some t" and "Date_parse s' = Some t'"
  shows "s \<le> s' \<longleftrightarrow> t \<le> t'"
  using Date_parse_order [OF assms] Date_parse_inj [OF assms]
  by (simp add: le_less)

lemma Date_parse_year:
  assumes "Date_parse s = Some t"
  shows "0 \<le> YearFromTime t \<and> YearFromTime t \<le> 9999"
proof (rule Date_parse_fields [OF assms])
  fix y1 y2 y3 y4 m1 m2 d1 d2
  assume dy: "isDigit y1" "isDigit y2" "isDigit y3" "isDigit y4"
    and v: "1 \<le> 10 * digitVal m1 + digitVal m2" "10 * digitVal m1 + digitVal m2 \<le> 12"
      "1 \<le> 10 * digitVal d1 + digitVal d2"
      "10 * digitVal d1 + digitVal d2 \<le>
           DaysInMonth (1000 * digitVal y1 + 100 * digitVal y2 + 10 * digitVal y3 + digitVal y4)
             (10 * digitVal m1 + digitVal m2)"
    and t: "t = MakeDay (1000 * digitVal y1 + 100 * digitVal y2 + 10 * digitVal y3 + digitVal y4)
               (10 * digitVal m1 + digitVal m2 - 1) (10 * digitVal d1 + digitVal d2) * msPerDay"
  define y where "y = 1000 * digitVal y1 + 100 * digitVal y2 + 10 * digitVal y3 + digitVal y4"
  have day: "Day t = MakeDay y (10 * digitVal m1 + digitVal m2 - 1) (10 * digitVal d1 + digitVal d2)"
    unfolding t y_def by (simp add: Day_def msPerDay_def)
  note within = MakeDay_within_year [OF v, folded y_def]
  have "DayFromYear y \<le> Day t"
    unfolding day by (rule within(1))
  moreover have "Day t < DayFromYear (y + 1)"
    unfolding day by (rule within(2))
  ultimately have year: "YearFromTime t = y"
    unfolding YearFromTime_def by (rule YearFromDay_unique)
  have "0 \<le> y \<and> y \<le> 9999"
    unfolding y_def using digitVal_range [OF dy(1)] digitVal_range [OF dy(2)]
      digitVal_range [OF dy(3)] digitVal_range [OF dy(4)] by linarith
  with year show ?thesis by simp
qed

text \<open>
  When the offset at the UTC midnight of today is at or east of Greenwich by less than
  a day, and the offset applied at the week start is not larger and less than a day
  smaller, the week-start string parses to the Sunday of today's week, and an entry
  date that parses is at or after that string exactly when its day is on or after that
  Sunday. (The year of the Sunday is below 0 only in the first days of the year 0000.)
\<close>

lemma week_start_denotes_sunday:
  assumes p: "Date_parse todayStr = Some t0"
    and z: "0 \<le> offsetAtInstant tz t0" "offsetAtInstant tz t0 < msPerDay"
      "offsetAtLocal tz (t0 - WeekDay t0 * msPerDay + offsetAtInstant tz t0) \<le> offsetAtInstant tz t0"
      "offsetAtInstant tz t0
         - offsetAtLocal tz (t0 - WeekDay t0 * msPerDay + offsetAtInstant tz t0) < msPerDay"
    and yr: "0 \<le> YearFromTime (t0 - WeekDay t0 * msPerDay)"
      "YearFromTime (t0 - WeekDay t0 * msPerDay) \<le> 9999"
  shows "\<exists>ws. weekStartStr tz t0 = Some ws
           \<and> Date_parse ws = Some (t0 - WeekDay t0 * msPerDay)
           \<and> WeekDay (t0 - WeekDay t0 * msPerDay) = 0
           \<and> (\<forall>s t. Date_parse s = Some t \<longrightarrow> (ws \<le> s \<longleftrightarrow> t0 - WeekDay t0 * msPerDay \<le> t))"
proof -
  let ?u = "t0 - WeekDay t0 * msPerDay"
  from Date_parse_day [OF p] have mid: "t0 = Day t0 * msPerDay"
    by simp
  have eq: "?u = (Day t0 - WeekDay t0) * msPerDay"
    using mid by (simp add: algebra_simps)
  then have "Day ?u = Day t0 - WeekDay t0"
    by (simp add: Day_def msPerDay_def)
  with eq have umid: "?u = Day ?u * msPerDay"
    by simp
  from toISOString_parse [OF umid yr] have parses: "Date_parse (take 10 (toISOString ?u)) = Some ?u" .
  have cmp: "\<forall>s t. Date_parse s = Some t \<longrightarrow> (take 10 (toISOString ?u) \<le> s \<longleftrightarrow> ?u \<le> t)"
    using Date_parse_le [OF parses] by blast
  show ?thesis
    using weekStartStr_east [OF p z] parses week_start_is_sunday(1) [OF mid] cmp
    by (intro exI [of _ "take 10 (toISOString ?u)"] conjI)
qed

text \<open>A comparison of two date strings that parse is a comparison of their days.\<close>

lemma date_strings_chronological:
  assumes "Date_parse s = Some t" and "Date_parse s' = Some t'"
  shows "(s < s' \<longleftrightarrow> t < t') \<and> (s = s' \<longleftrightarrow> t = t') \<and> (s \<le> s' \<longleftrightarrow> t \<le> t')"
  using Date_parse_order [OF assms] Date_parse_inj [OF assms] Date_parse_le [OF assms]
  by blast


lemma natDigits_small: "n < 10 \<Longrightarrow> natDigits n = [48 + n]"
  by (subst natDigits.simps) simp

lemma natDigits_more: "10 \<le> n \<Longrightarrow> natDigits n = natDigits (n div 10) @ [48 + n mod 10]"
  by (subst natDigits.simps) simp

lemma natDigits_four:
  assumes "1000 \<le> n" "n \<le> 9999"
  shows "natDigits n = [48 + n div 1000, 48 + n div 100 mod 10, 48 + n div 10 mod 10, 48 + n mod 10]"
proof -
  have q: "n div 10 div 10 = n div 100" "n div 100 div 10 = n div 1000"
    by (simp_all add: div_mult2_eq [symmetric])
  from assms have r: "10 \<le> n" "10 \<le> n div 10" "10 \<le> n div 100" "n div 1000 < 10"
    by simp_all
  have "natDigits n = natDigits (n div 10) @ [48 + n mod 10]"
    using r(1) by (rule natDigits_more)
  also have "natDigits (n div 10) = natDigits (n div 100) @ [48 + n div 10 mod 10]"
    using natDigits_more [OF r(2)] by (simp only: q)
  also have "natDigits (n div 100) = natDigits (n div 1000) @ [48 + n div 100 mod 10]"
    using natDigits_more [OF r(3)] by (simp only: q)
  also have "natDigits (n div 1000) = [48 + n div 1000]"
    using r(4) by (rule natDigits_small)
  finally show ?thesis
    by simp
qed

lemma four_digits_value:
  fixes n :: nat
  shows "1000 * (n div 1000) + 100 * (n div 100 mod 10) + 10 * (n div 10 mod 10) + n mod 10 = n"
proof -
  have q: "n div 10 div 10 = n div 100" "n div 100 div 10 = n div 1000"
    by (simp_all add: div_mult2_eq [symmetric])
  have "n = 10 * (n div 10) + n mod 10"
    by simp
  moreover have "n div 10 = 10 * (n div 100) + n div 10 mod 10"
    using div_mult_mod_eq [of "n div 10" 10] by (simp only: q mult.commute)
  moreover have "n div 100 = 10 * (n div 1000) + n div 100 mod 10"
    using div_mult_mod_eq [of "n div 100" 10] by (simp only: q mult.commute)
  ultimately show ?thesis
    by linarith
qed

text \<open>
  When the offset at the UTC midnight of today is at or east of Greenwich by less than
  a day and the year has four digits, the year-start string parses to the first day of
  today's year.
\<close>

lemma year_start_denotes_jan1:
  assumes p: "Date_parse todayStr = Some t0"
    and z: "0 \<le> offsetAtInstant tz t0" "offsetAtInstant tz t0 < msPerDay"
    and yr: "1000 \<le> YearFromTime t0"
  shows "Date_parse (yearStartStr tz t0) = Some (DayFromYear (YearFromTime t0) * msPerDay)"
proof -
  define Y where "Y = YearFromTime t0"
  define n where "n = nat Y"
  from Date_parse_year [OF p] yr have Y: "1000 \<le> Y" "Y \<le> 9999" "0 \<le> Y"
    by (simp_all add: Y_def)
  then have n: "1000 \<le> n" "n \<le> 9999" "int n = Y"
    by (simp_all add: n_def)
  from Date_parse_day [OF p] have mid: "t0 = Day t0 * msPerDay"
    by simp
  have str: "yearStartStr tz t0 =
      [48 + n div 1000, 48 + n div 100 mod 10, 48 + n div 10 mod 10, 48 + n mod 10,
       45, 48, 49, 45, 48, 49]"
  proof -
    have "numberToString Y = natDigits n"
      using Y(3) by (simp add: numberToString_def n_def del: natDigits.simps)
    then show ?thesis
      unfolding yearStartStr_def getFullYear_east [OF mid z] Y_def [symmetric]
      by (simp add: natDigits_four [OF n(1,2)] js_def del: natDigits.simps)
  qed
  have dig: "isDigit (48 + n div 1000)" "isDigit (48 + n div 100 mod 10)"
      "isDigit (48 + n div 10 mod 10)" "isDigit (48 + n mod 10)"
    using n(2) by (simp_all add: isDigit_def)
  have "1000 * int (n div 1000) + 100 * int (n div 100 mod 10) + 10 * int (n div 10 mod 10)
          + int (n mod 10)
        = int (1000 * (n div 1000) + 100 * (n div 100 mod 10) + 10 * (n div 10 mod 10) + n mod 10)"
    by simp
  then have val: "1000 * int (n div 1000) + 100 * int (n div 100 mod 10) + 10 * int (n div 10 mod 10)
          + int (n mod 10) = Y"
    by (simp only: four_digits_value n(3))
  have jan1: "MakeDay Y 0 1 = DayFromYear Y"
    by (simp add: MakeDay_def Let_def monthStart_def)
  from DayFromYear_bounds [OF Y(3,2)] have "\<bar>DayFromYear Y * msPerDay\<bar> \<le> 8640000000000000"
    by (simp add: msPerDay_def abs_le_iff)
  then have clip: "TimeClip (DayFromYear Y * msPerDay) = Some (DayFromYear Y * msPerDay)"
    by (simp add: TimeClip_def)
  have "Date_parse (yearStartStr tz t0) = TimeClip (MakeDate (MakeDay Y 0 1) 0)"
    unfolding str using dig
    by (simp add: Date_parse_def Let_def val isDigit_def digitVal_def DaysInMonth_def)
  also have "\<dots> = Some (DayFromYear Y * msPerDay)"
    by (simp only: jan1 MakeDate_def add_0_right clip)
  finally show ?thesis
    by (simp only: Y_def)
qed

section \<open>The window fold\<close>

lemma y_income_step:
  "y_income (windowStep ys ws t acc) =
     y_income acc + (if tx_type t = income \<and> ys \<le> tx_date t then tx_amount t else 0)"
  by (simp add: windowStep_def weekStep_def yearStep_def Let_def)

lemma y_expense_step:
  "y_expense (windowStep ys ws t acc) =
     y_expense acc + (if tx_type t = expense \<and> ys \<le> tx_date t then tx_amount t else 0)"
  by (simp add: windowStep_def weekStep_def yearStep_def Let_def not_income)

lemma w_income_step:
  "w_income (windowStep ys ws t acc) =
     w_income acc + (if tx_type t = income \<and> ws \<le> tx_date t then tx_amount t else 0)"
  by (simp add: windowStep_def weekStep_def yearStep_def Let_def)

lemma w_expense_step:
  "w_expense (windowStep ys ws t acc) =
     w_expense acc + (if tx_type t = expense \<and> ws \<le> tx_date t then tx_amount t else 0)"
  by (simp add: windowStep_def weekStep_def yearStep_def Let_def not_income)

lemma y_income_fold:
  "y_income (fold (windowStep ys ws) txs acc) = y_income acc + sumFrom income ys txs"
  by (induction txs arbitrary: acc) (simp_all add: sumFrom_def y_income_step)

lemma y_expense_fold:
  "y_expense (fold (windowStep ys ws) txs acc) = y_expense acc + sumFrom expense ys txs"
  by (induction txs arbitrary: acc) (simp_all add: sumFrom_def y_expense_step)

lemma w_income_fold:
  "w_income (fold (windowStep ys ws) txs acc) = w_income acc + sumFrom income ws txs"
  by (induction txs arbitrary: acc) (simp_all add: sumFrom_def w_income_step)

lemma w_expense_fold:
  "w_expense (fold (windowStep ys ws) txs acc) = w_expense acc + sumFrom expense ws txs"
  by (induction txs arbitrary: acc) (simp_all add: sumFrom_def w_expense_step)

lemma plusAssign_present:
  "distinct cats \<Longrightarrow> k \<in> set cats \<Longrightarrow>
     plusAssign (map (\<lambda>c. (c, Num (f c))) cats) k a =
       map (\<lambda>c. (c, Num (if c = k then f c + a else f c))) cats"
proof (induction cats)
  case Nil
  then show ?case by simp
next
  case (Cons c cs)
  show ?case
  proof (cases "c = k")
    case True
    with Cons.prems(1) have "\<forall>c' \<in> set cs. c' \<noteq> k"
      by auto
    then have "map (\<lambda>c. (c, Num (if c = k then f c + a else f c))) cs = map (\<lambda>c. (c, Num (f c))) cs"
      by (intro map_cong) simp_all
    with True show ?thesis
      by simp
  next
    case False
    with Cons show ?thesis
      by simp
  qed
qed

lemma distinct_gyeongsangbi: "distinct gyeongsangbiCategories"
  by (simp add: gyeongsangbiCategories_def JUJEONG_def SIBILJO_def GAMSA_def SAENGIL_def
      SIMBANG_def ILCHEONBEONJE_def)

lemma w_breakdown_step:
  assumes "w_breakdown acc = map (\<lambda>c. (c, Num (f c))) gyeongsangbiCategories"
  shows "w_breakdown (windowStep ys ws t acc) =
     map (\<lambda>c. (c, Num (f c + (if tx_type t = income \<and> ws \<le> tx_date t \<and> tx_category t = c
                                 then tx_amount t else 0))))
       gyeongsangbiCategories"
proof (cases "tx_type t = income \<and> ws \<le> tx_date t \<and> tx_category t \<in> set gyeongsangbiCategories")
  case True
  then have "w_breakdown (windowStep ys ws t acc) =
      plusAssign (map (\<lambda>c. (c, Num (f c))) gyeongsangbiCategories) (tx_category t) (tx_amount t)"
    using assms by (simp add: windowStep_def weekStep_def yearStep_def Let_def)
  also have "\<dots> = map (\<lambda>c. (c, Num (if c = tx_category t then f c + tx_amount t else f c)))
      gyeongsangbiCategories"
    using True by (intro plusAssign_present distinct_gyeongsangbi) simp
  also have "\<dots> = map (\<lambda>c. (c, Num (f c + (if tx_type t = income \<and> ws \<le> tx_date t
        \<and> tx_category t = c then tx_amount t else 0)))) gyeongsangbiCategories"
    using True by (intro map_cong) auto
  finally show ?thesis .
next
  case False
  then have "w_breakdown (windowStep ys ws t acc) = map (\<lambda>c. (c, Num (f c))) gyeongsangbiCategories"
    using assms by (auto simp: windowStep_def weekStep_def yearStep_def Let_def)
  also have "\<dots> = map (\<lambda>c. (c, Num (f c + (if tx_type t = income \<and> ws \<le> tx_date t
        \<and> tx_category t = c then tx_amount t else 0)))) gyeongsangbiCategories"
    using False by (intro map_cong) auto
  finally show ?thesis .
qed

lemma w_breakdown_fold:
  "w_breakdown acc = map (\<lambda>c. (c, Num (f c))) gyeongsangbiCategories \<Longrightarrow>
   w_breakdown (fold (windowStep ys ws) txs acc) =
     map (\<lambda>c. (c, Num (f c + sumCategoryFrom c ws txs))) gyeongsangbiCategories"
proof (induction txs arbitrary: acc f)
  case Nil
  then show ?case by (simp add: sumCategoryFrom_def)
next
  case (Cons t ts)
  let ?g = "\<lambda>c. f c + (if tx_type t = income \<and> ws \<le> tx_date t \<and> tx_category t = c
                           then tx_amount t else 0)"
  from w_breakdown_step [OF Cons.prems, of ys ws t]
  have "w_breakdown (windowStep ys ws t acc) = map (\<lambda>c. (c, Num (?g c))) gyeongsangbiCategories" .
  from Cons.IH [OF this]
  have "w_breakdown (fold (windowStep ys ws) ts (windowStep ys ws t acc)) =
      map (\<lambda>c. (c, Num (?g c + sumCategoryFrom c ws ts))) gyeongsangbiCategories" .
  moreover have "?g c + sumCategoryFrom c ws ts = f c + sumCategoryFrom c ws (t # ts)" for c
    by (simp add: sumCategoryFrom_def)
  ultimately show ?case
    by simp
qed

lemma sumCategoryFrom_nonneg:
  "\<forall>t \<in> set txs. tx_type t = income \<and> ws \<le> tx_date t \<and> tx_category t = c \<longrightarrow> 0 \<le> tx_amount t
     \<Longrightarrow> 0 \<le> sumCategoryFrom c ws txs"
  unfolding sumCategoryFrom_def by (intro sum_list_nonneg) auto

lemma useMemo_body_eq:
  assumes "Date_parse todayStr = Some today" and "weekStartStr tz today = Some ws"
  shows "useMemo_body tz lc ms txs todayStr =
     Some \<lparr>balanceData_of = balanceData txs todayStr,
            periodicalSummary =
              \<lparr>weeklyIncome = sumFrom income ws txs, weeklyExpense = sumFrom expense ws txs,
               yearlyIncome = sumFrom income (yearStartStr tz today) txs,
               yearlyExpense = sumFrom expense (yearStartStr tz today) txs,
               weeklyBalance = sumFrom income ws txs - sumFrom expense ws txs,
               yearlyBalance = sumFrom income (yearStartStr tz today) txs
                                 - sumFrom expense (yearStartStr tz today) txs\<rparr>,
            weeklyCategoryTotals =
              \<lparr>weeklyGyeongsangbiBreakdown =
                 map (\<lambda>c. (c, Num (sumCategoryFrom c ws txs))) gyeongsangbiCategories,
               weeklySeongyo = w_seongyo (fold (windowStep (yearStartStr tz today) ws) txs initialWindows),
               weeklyGeonchuk = w_geonchuk (fold (windowStep (yearStartStr tz today) ws) txs initialWindows)\<rparr>,
            transactionsWithBalance = withBalance lc ms txs\<rparr>"
proof -
  have init: "w_breakdown initialWindows = map (\<lambda>c. (c, Num ((\<lambda>_. 0) c))) gyeongsangbiCategories"
    by (simp add: initialWindows_def)
  have zero: "w_income initialWindows = 0" "w_expense initialWindows = 0"
      "y_income initialWindows = 0" "y_expense initialWindows = 0"
    by (simp_all add: initialWindows_def)
  from assms show ?thesis
    by (simp add: useMemo_body_def Let_def y_income_fold y_expense_fold w_income_fold
          w_expense_fold w_breakdown_fold [OF init] zero)
qed

lemma useMemo_body_SomeD:
  assumes "useMemo_body tz lc ms txs todayStr = Some r"
  shows "\<exists>today ws. Date_parse todayStr = Some today \<and> weekStartStr tz today = Some ws"
  using assms by (auto simp: useMemo_body_def split: option.splits)


text \<open>
  The computation returns whenever today parses and the offsets of the zone stay within
  a day of UTC (as those of every zone in use do): the week start is then a valid time
  value.
\<close>

lemma weekStartStr_returns:
  assumes p: "Date_parse todayStr = Some t"
    and o1: "\<bar>offsetAtInstant tz t\<bar> \<le> msPerDay"
    and o2: "\<forall>x. \<bar>offsetAtLocal tz x\<bar> \<le> msPerDay"
  shows "\<exists>ws. weekStartStr tz t = Some ws"
proof -
  define a where "a = offsetAtInstant tz t"
  define nd where "nd = (Day (t + a) - WeekDay (t + a)) * msPerDay + TimeWithinDay (t + a)"
  define b where "b = offsetAtLocal tz nd"
  from Date_parse_day [OF p] have mid: "t = Day t * msPerDay"
    and rng: "- 720000 \<le> Day t" "Day t \<le> 2941000"
    by simp_all
  from o1 have a: "- msPerDay \<le> a" "a \<le> msPerDay"
    by (simp_all add: a_def abs_le_iff)
  from o2 have b: "- msPerDay \<le> b" "b \<le> msPerDay"
    by (simp_all add: b_def abs_le_iff minus_le_iff)
  have "Day (t + a) = (a + Day t * msPerDay) div msPerDay"
    using mid by (simp add: Day_def add.commute)
  also have "\<dots> = Day t + a div msPerDay"
    by (simp add: msPerDay_def)
  finally have day: "Day (t + a) = Day t + a div msPerDay" .
  have "- msPerDay div msPerDay \<le> a div msPerDay" "a div msPerDay \<le> msPerDay div msPerDay"
    using a by (simp_all add: zdiv_mono1 msPerDay_def)
  then have q: "- 1 \<le> a div msPerDay" "a div msPerDay \<le> 1"
    by (simp_all add: msPerDay_def)
  have w: "0 \<le> TimeWithinDay (t + a)" "TimeWithinDay (t + a) < msPerDay"
    by (simp_all add: TimeWithinDay_def msPerDay_def)
  have "\<bar>nd - b\<bar> \<le> 8640000000000000"
    using rng q w b WeekDay_range [of "t + a"]
    by (simp add: nd_def day msPerDay_def abs_le_iff)
  then have "TimeClip (nd - b) = Some (nd - b)"
    by (simp add: TimeClip_def)
  then have "setDate tz t (getDate tz t - getDay tz t) = Some (nd - b)"
    by (simp add: setDate_week_start LocalTime_def nd_def b_def a_def)
  then show ?thesis
    by (simp add: weekStartStr_def)
qed

lemma useMemo_body_returns:
  assumes "Date_parse todayStr = Some today"
    and "\<bar>offsetAtInstant tz today\<bar> \<le> msPerDay"
    and "\<forall>x. \<bar>offsetAtLocal tz x\<bar> \<le> msPerDay"
  shows "\<exists>r. useMemo_body tz lc ms txs todayStr = Some r"
proof -
  from weekStartStr_returns [OF assms] obtain ws where "weekStartStr tz today = Some ws"
    by blast
  from useMemo_body_eq [OF assms(1) this] show ?thesis
    by blast
qed

lemma map_of_breakdown:
  "cat \<in> set cats \<Longrightarrow> map_of (map (\<lambda>c. (c, Num (g c))) cats) cat = Some (Num (g cat))"
  by (induction cats) auto

section \<open>Weekly and yearly totals\<close>



subsection \<open>The example ledger in three zones\<close>

lemma ex_KST: "offsetAtInstant KST t = 32400000" "offsetAtLocal KST t = 32400000"
  by (simp_all add: KST_def fixedZone_def)

lemma iso_0107: "take 10 (toISOString 1704585600000) = js ''2024-01-07''"
  by code_simp

lemma iso_1026: "take 10 (toISOString 1729900800000) = js ''2024-10-26''"
  by code_simp

lemma parse_1030: "Date_parse (js ''2024-10-30'') = Some 1730246400000"
  by code_simp

lemma parse_0101: "Date_parse (js ''2024-01-01'') = Some 1704067200000"
  by code_simp

lemma weekday_0110: "WeekDay 1704844800000 = 3"
  by (simp add: WeekDay_def Day_def msPerDay_def)

lemma weekday_1030: "WeekDay 1730246400000 = 3"
  by (simp add: WeekDay_def Day_def msPerDay_def)


lemma ex_weekStart: "weekStartStr KST 1704844800000 = Some (js ''2024-01-07'')"
proof -
  have "weekStartStr KST 1704844800000 =
      Some (take 10 (toISOString (1704844800000 - WeekDay 1704844800000 * msPerDay)))"
    by (rule weekStartStr_east [OF parse_0110]) (simp_all add: ex_KST msPerDay_def)
  then show ?thesis
    by (simp add: weekday_0110 msPerDay_def iso_0107)
qed


text \<open>
  In central Europe on Wednesday 2024-10-30 the week start comes out as Saturday
  2024-10-26: the local time 01:00 of Sunday 27 October still belongs to summer time, and
  is 23:00 UTC of the day before.
\<close>

lemma ex_weekStart_CET: "weekStartStr CET2024 1730246400000 = Some (js ''2024-10-26'')"
proof -
  have "weekStartStr CET2024 1730246400000 =
      Some (take 10 (toISOString (1730246400000 - (WeekDay 1730246400000 + 1) * msPerDay)))"
    by (rule weekStartStr_day_before [OF parse_1030])
      (simp_all add: CET2024_def weekday_1030 msPerDay_def)
  then show ?thesis
    by (simp add: weekday_1030 msPerDay_def iso_1026)
qed

text \<open>
  Five hours west of Greenwich the UTC midnight of 2024-01-01 is still 31 December
  2023 in local time, and the year-start string carries the year before.
\<close>

lemma ex_yearStart_west: "yearStartStr (fixedZone (- 18000000)) 1704067200000 = js ''2023-01-01''"
proof -
  have "numberToString (YearFromTime (1704067200000 + - 18000000)) = js ''2023''"
    by code_simp
  then show ?thesis
    by (simp add: yearStartStr_def getFullYear_def LocalTime_def fixedZone_def js_def)
qed




section \<open>The weekly breakdown by recurring category\<close>

text \<open>
  C6, as the source has it. The computation returns when today parses and the offsets
  of the zone stay within a day of UTC. Whenever it returns, the weekly breakdown has
  exactly the six recurring category names as its keys, in the order of the source's
  list and each once, so the lookup of each of them succeeds; the value under each key
  is the sum of the amounts of the income entries of that category dated from the week
  start on. So it is 0 when there is no such entry (in particular for the empty ledger)
  and at least 0 when none of these entries has a negative amount. The amounts are added
  without a test of their sign, and a value can be negative; see the counterexample.
\<close>

theorem breakdown_complete:
  "(useMemo_body tz lc ms txs todayStr = Some r \<longrightarrow>
      map fst (weeklyGyeongsangbiBreakdown (weeklyCategoryTotals r)) = gyeongsangbiCategories
      \<and> set gyeongsangbiCategories = {JUJEONG, SIBILJO, GAMSA, SAENGIL, SIMBANG, ILCHEONBEONJE}
      \<and> length gyeongsangbiCategories = 6 \<and> distinct gyeongsangbiCategories
      \<and> (\<exists>today ws. Date_parse todayStr = Some today \<and> weekStartStr tz today = Some ws
            \<and> (\<forall>cat \<in> set gyeongsangbiCategories.
                  map_of (weeklyGyeongsangbiBreakdown (weeklyCategoryTotals r)) cat =
                    Some (Num (sumCategoryFrom cat ws txs))
                  \<and> ((\<forall>t \<in> set txs. \<not> (tx_type t = income \<and> ws \<le> tx_date t \<and> tx_category t = cat))
                        \<longrightarrow> sumCategoryFrom cat ws txs = 0)
                  \<and> ((\<forall>t \<in> set txs. tx_type t = income \<and> ws \<le> tx_date t \<and> tx_category t = cat
                          \<longrightarrow> 0 \<le> tx_amount t)
                        \<longrightarrow> 0 \<le> sumCategoryFrom cat ws txs))))
   \<and> (useMemo_body tz lc ms [] todayStr = Some r0 \<longrightarrow>
        weeklyGyeongsangbiBreakdown (weeklyCategoryTotals r0) =
          map (\<lambda>cat. (cat, Num 0)) gyeongsangbiCategories)
   \<and> (Date_parse todayStr = Some t0 \<and> \<bar>offsetAtInstant tz t0\<bar> \<le> msPerDay
        \<and> (\<forall>x. \<bar>offsetAtLocal tz x\<bar> \<le> msPerDay) \<longrightarrow>
        (\<exists>r'. useMemo_body tz lc ms txs todayStr = Some r'))"
proof -
  have returns: "\<exists>r'. useMemo_body tz lc ms txs todayStr = Some r'"
    if "Date_parse todayStr = Some t0" "\<bar>offsetAtInstant tz t0\<bar> \<le> msPerDay"
       "\<forall>x. \<bar>offsetAtLocal tz x\<bar> \<le> msPerDay"
    using that by (rule useMemo_body_returns)
  have full: "map fst (weeklyGyeongsangbiBreakdown (weeklyCategoryTotals r)) = gyeongsangbiCategories
      \<and> (\<exists>today ws. Date_parse todayStr = Some today \<and> weekStartStr tz today = Some ws
            \<and> (\<forall>cat \<in> set gyeongsangbiCategories.
                  map_of (weeklyGyeongsangbiBreakdown (weeklyCategoryTotals r)) cat =
                    Some (Num (sumCategoryFrom cat ws txs))
                  \<and> ((\<forall>t \<in> set txs. \<not> (tx_type t = income \<and> ws \<le> tx_date t \<and> tx_category t = cat))
                        \<longrightarrow> sumCategoryFrom cat ws txs = 0)
                  \<and> ((\<forall>t \<in> set txs. tx_type t = income \<and> ws \<le> tx_date t \<and> tx_category t = cat
                          \<longrightarrow> 0 \<le> tx_amount t)
                        \<longrightarrow> 0 \<le> sumCategoryFrom cat ws txs)))"
    if ret: "useMemo_body tz lc ms txs todayStr = Some r"
  proof -
    from useMemo_body_SomeD [OF ret] obtain today ws
      where p: "Date_parse todayStr = Some today" and w: "weekStartStr tz today = Some ws"
      by blast
    from useMemo_body_eq [OF p w, of lc ms txs] ret have bd:
      "weeklyGyeongsangbiBreakdown (weeklyCategoryTotals r) =
         map (\<lambda>c. (c, Num (sumCategoryFrom c ws txs))) gyeongsangbiCategories"
      by auto
    have keys: "map fst (weeklyGyeongsangbiBreakdown (weeklyCategoryTotals r)) = gyeongsangbiCategories"
      unfolding bd by (simp add: comp_def)
    have none: "sumCategoryFrom cat ws txs = 0"
      if "\<forall>t \<in> set txs. \<not> (tx_type t = income \<and> ws \<le> tx_date t \<and> tx_category t = cat)" for cat
    proof -
      from that have "filter (\<lambda>t. tx_type t = income \<and> ws \<le> tx_date t \<and> tx_category t = cat) txs = []"
        by (simp add: filter_empty_conv)
      then show ?thesis
        by (simp add: sumCategoryFrom_def)
    qed
    have vals: "map_of (weeklyGyeongsangbiBreakdown (weeklyCategoryTotals r)) cat =
        Some (Num (sumCategoryFrom cat ws txs))" if "cat \<in> set gyeongsangbiCategories" for cat
      unfolding bd using that by (rule map_of_breakdown)
    have each: "\<forall>cat \<in> set gyeongsangbiCategories.
        map_of (weeklyGyeongsangbiBreakdown (weeklyCategoryTotals r)) cat =
          Some (Num (sumCategoryFrom cat ws txs))
        \<and> ((\<forall>t \<in> set txs. \<not> (tx_type t = income \<and> ws \<le> tx_date t \<and> tx_category t = cat))
              \<longrightarrow> sumCategoryFrom cat ws txs = 0)
        \<and> ((\<forall>t \<in> set txs. tx_type t = income \<and> ws \<le> tx_date t \<and> tx_category t = cat
                \<longrightarrow> 0 \<le> tx_amount t)
              \<longrightarrow> 0 \<le> sumCategoryFrom cat ws txs)"
      using vals none sumCategoryFrom_nonneg [where txs = txs and ws = ws] by blast
    from keys p w each show ?thesis
      by blast
  qed
  have names: "set gyeongsangbiCategories = {JUJEONG, SIBILJO, GAMSA, SAENGIL, SIMBANG, ILCHEONBEONJE}"
      "length gyeongsangbiCategories = 6"
    by (simp_all add: gyeongsangbiCategories_def)
  have empty: "weeklyGyeongsangbiBreakdown (weeklyCategoryTotals r0) =
          map (\<lambda>cat. (cat, Num 0)) gyeongsangbiCategories"
    if ret: "useMemo_body tz lc ms [] todayStr = Some r0"
  proof -
    from useMemo_body_SomeD [OF ret] obtain today ws
      where p: "Date_parse todayStr = Some today" and w: "weekStartStr tz today = Some ws"
      by blast
    from useMemo_body_eq [OF p w, of lc ms "[]"] ret show ?thesis
      by (auto simp: sumCategoryFrom_def)
  qed
  from full names distinct_gyeongsangbi empty returns show ?thesis
    by blast
qed

lemma ex_KST_bounded:
  "\<bar>offsetAtInstant KST t\<bar> \<le> msPerDay" "\<forall>x. \<bar>offsetAtLocal KST x\<bar> \<le> msPerDay"
  by (simp_all add: ex_KST msPerDay_def)

text \<open>
  On the example ledger with today 2024-01-10 (week start 2024-01-07) the tithe of
  2024-01-07 gives 1000 under its key, the weekly offering has no entry and 0, and the
  empty ledger gives 0 under all six keys.
\<close>

theorem breakdown_complete_witness:
  "useMemo_body KST codeUnitCompare exMembers exLedger (js ''2024-01-10'') \<noteq> None
   \<and> list_all (\<lambda>t. 0 \<le> tx_amount t) exLedger
   \<and> map fst (weeklyGyeongsangbiBreakdown (weeklyCategoryTotals
         (the (useMemo_body KST codeUnitCompare exMembers exLedger (js ''2024-01-10'')))))
       = [JUJEONG, SIBILJO, GAMSA, SAENGIL, SIMBANG, ILCHEONBEONJE]
   \<and> map_of (weeklyGyeongsangbiBreakdown (weeklyCategoryTotals
         (the (useMemo_body KST codeUnitCompare exMembers exLedger (js ''2024-01-10''))))) SIBILJO
       = Some (Num 1000)
   \<and> map_of (weeklyGyeongsangbiBreakdown (weeklyCategoryTotals
         (the (useMemo_body KST codeUnitCompare exMembers exLedger (js ''2024-01-10''))))) JUJEONG
       = Some (Num 0)
   \<and> weeklyGyeongsangbiBreakdown (weeklyCategoryTotals
         (the (useMemo_body KST codeUnitCompare exMembers [] (js ''2024-01-10''))))
       = [(JUJEONG, Num 0), (SIBILJO, Num 0), (GAMSA, Num 0), (SAENGIL, Num 0),
          (SIMBANG, Num 0), (ILCHEONBEONJE, Num 0)]"
proof -
  let ?out = "useMemo_body KST codeUnitCompare exMembers exLedger (js ''2024-01-10'')"
  let ?blank = "useMemo_body KST codeUnitCompare exMembers [] (js ''2024-01-10'')"
  from breakdown_complete [of KST codeUnitCompare exMembers exLedger "js ''2024-01-10''" _ _ 1704844800000]
    parse_0110 ex_KST_bounded
  obtain r where r: "?out = Some r"
    by blast
  from breakdown_complete [of KST codeUnitCompare exMembers "[]" "js ''2024-01-10''" _ _ 1704844800000]
    parse_0110 ex_KST_bounded
  obtain r0 where r0: "?blank = Some r0"
    by blast
  note inst = breakdown_complete [of KST codeUnitCompare exMembers exLedger "js ''2024-01-10''" r r0]
  have nonneg: "list_all (\<lambda>t. 0 \<le> tx_amount t) exLedger"
    by (simp add: exLedger_def mkTx_def)
  from inst r have keys: "map fst (weeklyGyeongsangbiBreakdown (weeklyCategoryTotals r)) =
      gyeongsangbiCategories"
    by blast
  from inst r obtain today ws where tw: "Date_parse (js ''2024-01-10'') = Some today"
      "weekStartStr KST today = Some ws"
    and each: "\<forall>cat \<in> set gyeongsangbiCategories.
        map_of (weeklyGyeongsangbiBreakdown (weeklyCategoryTotals r)) cat =
          Some (Num (sumCategoryFrom cat ws exLedger))
        \<and> ((\<forall>t \<in> set exLedger. \<not> (tx_type t = income \<and> ws \<le> tx_date t \<and> tx_category t = cat))
              \<longrightarrow> sumCategoryFrom cat ws exLedger = 0)
        \<and> ((\<forall>t \<in> set exLedger. tx_type t = income \<and> ws \<le> tx_date t \<and> tx_category t = cat
                \<longrightarrow> 0 \<le> tx_amount t)
              \<longrightarrow> 0 \<le> sumCategoryFrom cat ws exLedger)"
    by blast
  from tw parse_0110 ex_weekStart have ws: "ws = js ''2024-01-07''"
    by simp
  have mem: "SIBILJO \<in> set gyeongsangbiCategories" "JUJEONG \<in> set gyeongsangbiCategories"
    by (simp_all add: gyeongsangbiCategories_def)
  have tithe: "sumCategoryFrom SIBILJO (js ''2024-01-07'') exLedger = 1000"
    by (simp add: sumCategoryFrom_def exLedger_def mkTx_def js_def SIBILJO_def GAMSA_def)
  have no_weekly: "\<forall>t \<in> set exLedger.
      \<not> (tx_type t = income \<and> js ''2024-01-07'' \<le> tx_date t \<and> tx_category t = JUJEONG)"
    by (simp add: exLedger_def mkTx_def js_def SIBILJO_def GAMSA_def JUJEONG_def)
  from each mem(1) have "map_of (weeklyGyeongsangbiBreakdown (weeklyCategoryTotals r)) SIBILJO =
      Some (Num (sumCategoryFrom SIBILJO ws exLedger))"
    by blast
  then have v1: "map_of (weeklyGyeongsangbiBreakdown (weeklyCategoryTotals r)) SIBILJO = Some (Num 1000)"
    by (simp add: ws tithe)
  from each mem(2) no_weekly have "map_of (weeklyGyeongsangbiBreakdown (weeklyCategoryTotals r)) JUJEONG =
      Some (Num (sumCategoryFrom JUJEONG ws exLedger)) \<and> sumCategoryFrom JUJEONG ws exLedger = 0"
    unfolding ws by blast
  then have v2: "map_of (weeklyGyeongsangbiBreakdown (weeklyCategoryTotals r)) JUJEONG = Some (Num 0)"
    by simp
  from inst r0 have "weeklyGyeongsangbiBreakdown (weeklyCategoryTotals r0) =
      map (\<lambda>cat. (cat, Num 0)) gyeongsangbiCategories"
    by blast
  then have v0: "weeklyGyeongsangbiBreakdown (weeklyCategoryTotals r0) =
      [(JUJEONG, Num 0), (SIBILJO, Num 0), (GAMSA, Num 0), (SAENGIL, Num 0),
       (SIMBANG, Num 0), (ILCHEONBEONJE, Num 0)]"
    by (simp add: gyeongsangbiCategories_def)
  from keys have keys': "map fst (weeklyGyeongsangbiBreakdown (weeklyCategoryTotals r)) =
      [JUJEONG, SIBILJO, GAMSA, SAENGIL, SIMBANG, ILCHEONBEONJE]"
    by (simp add: gyeongsangbiCategories_def)
  from r r0 nonneg keys' v1 v2 v0 show ?thesis
    by simp
qed

text \<open>
  A value of the breakdown below zero: with today 2024-01-06 (week start 2023-12-31) and
  a ledger of one tithe of -5 dated 2024-01-06, the value under the tithe key is -5.
\<close>

lemma weekday_0106: "WeekDay 1704499200000 = 6"
  by (simp add: WeekDay_def Day_def msPerDay_def)

lemma iso_1231: "take 10 (toISOString 1703980800000) = js ''2023-12-31''"
  by code_simp

lemma ex_weekStart_0106: "weekStartStr KST 1704499200000 = Some (js ''2023-12-31'')"
proof -
  have "weekStartStr KST 1704499200000 =
      Some (take 10 (toISOString (1704499200000 - WeekDay 1704499200000 * msPerDay)))"
    by (rule weekStartStr_east [OF parse_0106]) (simp_all add: ex_KST msPerDay_def)
  then show ?thesis
    by (simp add: weekday_0106 msPerDay_def iso_1231)
qed

theorem breakdown_negative_counterexample:
  "tx_type exNegative = income \<and> tx_category exNegative = SIBILJO
   \<and> tx_date exNegative = js ''2024-01-06'' \<and> tx_amount exNegative = - 5
   \<and> SIBILJO \<in> set gyeongsangbiCategories
   \<and> map_option (\<lambda>r. map_of (weeklyGyeongsangbiBreakdown (weeklyCategoryTotals r)) SIBILJO)
        (useMemo_body KST codeUnitCompare exMembers [exNegative] (js ''2024-01-06'')) =
       Some (Some (Num (- 5)))
   \<and> (- 5 :: int) < 0"
proof -
  have entry: "tx_type exNegative = income" "tx_category exNegative = SIBILJO"
      "tx_date exNegative = js ''2024-01-06''" "tx_amount exNegative = - 5"
    by (simp_all add: exNegative_def mkTx_def)
  have mem: "SIBILJO \<in> set gyeongsangbiCategories"
    by (simp add: gyeongsangbiCategories_def)
  have within: "js ''2023-12-31'' \<le> js ''2024-01-06''"
    by (simp add: js_def)
  have val: "sumCategoryFrom SIBILJO (js ''2023-12-31'') [exNegative] = - 5"
    by (simp add: sumCategoryFrom_def entry within)
  from useMemo_body_eq [OF parse_0106 ex_weekStart_0106, of codeUnitCompare exMembers "[exNegative]"]
  have "map_option (\<lambda>r. map_of (weeklyGyeongsangbiBreakdown (weeklyCategoryTotals r)) SIBILJO)
        (useMemo_body KST codeUnitCompare exMembers [exNegative] (js ''2024-01-06'')) =
      Some (map_of (map (\<lambda>c. (c, Num (sumCategoryFrom c (js ''2023-12-31'') [exNegative])))
                  gyeongsangbiCategories) SIBILJO)"
    by simp
  also have "\<dots> = Some (Some (Num (- 5)))"
    by (simp only: map_of_breakdown [OF mem] val)
  finally show ?thesis
    using entry mem by simp
qed

section \<open>Consistent comparators and the insertion sort\<close>

lemma sgn_flip:
  fixes u v :: int
  assumes "sgn v = - sgn u"
  shows "(u < 0 \<longleftrightarrow> 0 < v) \<and> (u = 0 \<longleftrightarrow> v = 0) \<and> (0 < u \<longleftrightarrow> v < 0)"
  using assms by (auto simp: sgn_if split: if_splits)

lemma consistent_on_sgn:
  "consistent_on S c \<Longrightarrow> x \<in> S \<Longrightarrow> y \<in> S \<Longrightarrow> sgn (c y x) = - sgn (c x y)"
  unfolding consistent_on_def by blast

lemma consistent_on_flip:
  assumes "consistent_on S c" "x \<in> S" "y \<in> S"
  shows "(c x y < 0 \<longleftrightarrow> 0 < c y x) \<and> (c x y = 0 \<longleftrightarrow> c y x = 0) \<and> (0 < c x y \<longleftrightarrow> c y x < 0)"
  using consistent_on_sgn [OF assms] by (rule sgn_flip)

lemma consistent_on_trans:
  assumes "consistent_on S c" "x \<in> S" "y \<in> S" "z \<in> S" "c x y \<le> 0" "c y z \<le> 0"
  shows "c x z \<le> 0"
  using assms unfolding consistent_on_def by blast

lemma consistent_on_strict:
  assumes c: "consistent_on S c" and mem: "x \<in> S" "y \<in> S" "z \<in> S"
    and le: "c x y \<le> 0" "c y z \<le> 0" and one: "c x y < 0 \<or> c y z < 0"
  shows "c x z < 0"
proof (rule ccontr)
  assume "\<not> c x z < 0"
  with consistent_on_trans [OF c mem le] have "c x z = 0"
    by simp
  with consistent_on_flip [OF c mem(1,3)] have zx: "c z x \<le> 0"
    by simp
  from one show False
  proof
    assume "c x y < 0"
    with consistent_on_flip [OF c mem(1,2)] have "0 < c y x"
      by simp
    moreover from consistent_on_trans [OF c mem(2,3,1) le(2) zx] have "c y x \<le> 0" .
    ultimately show False by simp
  next
    assume "c y z < 0"
    with consistent_on_flip [OF c mem(2,3)] have "0 < c z y"
      by simp
    moreover from consistent_on_trans [OF c mem(3,1,2) zx le(1)] have "c z y \<le> 0" .
    ultimately show False by simp
  qed
qed

lemma consistent_on_equiv:
  assumes c: "consistent_on S c" and mem: "x \<in> S" "y \<in> S" "z \<in> S"
    and eq: "c x y = 0" "c y z = 0"
  shows "c x z = 0"
proof -
  from eq have le: "c x y \<le> 0" "c y z \<le> 0"
    by simp_all
  have "\<not> c x z < 0"
  proof
    assume neg: "c x z < 0"
    from eq consistent_on_flip [OF c mem(1,2)] consistent_on_flip [OF c mem(2,3)]
    have rev_le: "c z y \<le> 0" "c y x \<le> 0"
      by simp_all
    from consistent_on_trans [OF c mem(3,2,1) rev_le] have "c z x \<le> 0" .
    with neg consistent_on_flip [OF c mem(1,3)] show False
      by simp
  qed
  with consistent_on_trans [OF c mem le] show ?thesis
    by simp
qed

lemma consistent_on_lexc:
  assumes c1: "consistent_on S c1" and c2: "consistent_on S c2"
  shows "consistent_on S (lexc c1 c2)"
  unfolding consistent_on_def
proof (intro conjI ballI impI)
  fix x y
  assume mem: "x \<in> S" "y \<in> S"
  show "sgn (lexc c1 c2 y x) = - sgn (lexc c1 c2 x y)"
  proof (cases "c1 x y = 0")
    case True
    with consistent_on_flip [OF c1 mem] have "c1 y x = 0"
      by simp
    with True consistent_on_sgn [OF c2 mem] show ?thesis
      by (simp add: lexc_def)
  next
    case False
    with consistent_on_flip [OF c1 mem] have "c1 y x \<noteq> 0"
      by simp
    with False consistent_on_sgn [OF c1 mem] show ?thesis
      by (simp add: lexc_def)
  qed
next
  fix x y z
  assume mem: "x \<in> S" "y \<in> S" "z \<in> S"
    and xy: "lexc c1 c2 x y \<le> 0" and yz: "lexc c1 c2 y z \<le> 0"
  from xy have xy1: "c1 x y \<le> 0"
    by (simp add: lexc_def split: if_splits)
  from yz have yz1: "c1 y z \<le> 0"
    by (simp add: lexc_def split: if_splits)
  show "lexc c1 c2 x z \<le> 0"
  proof (cases "c1 x y < 0 \<or> c1 y z < 0")
    case True
    from consistent_on_strict [OF c1 mem xy1 yz1 True] show ?thesis
      by (simp add: lexc_def)
  next
    case False
    with xy1 yz1 have z1: "c1 x y = 0" "c1 y z = 0"
      by simp_all
    from consistent_on_equiv [OF c1 mem z1] have xz1: "c1 x z = 0" .
    from xy yz z1 have "c2 x y \<le> 0" "c2 y z \<le> 0"
      by (simp_all add: lexc_def)
    from consistent_on_trans [OF c2 mem this] xz1 show ?thesis
      by (simp add: lexc_def)
  qed
qed

lemma consistent_on_key: "consistent_on S (\<lambda>x y. k x - k y)" for k :: "'a \<Rightarrow> int"
  by (auto simp: consistent_on_def sgn_if)

lemma consistent_on_collation:
  assumes "collation_ok lc"
  shows "consistent_on S (\<lambda>x y. lc (n y) (n x))"
  unfolding consistent_on_def
proof (intro conjI ballI impI)
  fix x y
  from assms show "sgn (lc (n x) (n y)) = - sgn (lc (n y) (n x))"
    unfolding collation_ok_def by blast
next
  fix x y z
  assume "lc (n y) (n x) \<le> 0" "lc (n z) (n y) \<le> 0"
  with assms show "lc (n z) (n x) \<le> 0"
    unfolding collation_ok_def by blast
qed

lemma consistent_on_cong:
  assumes "\<forall>x \<in> S. \<forall>y \<in> S. c x y = c' x y" and "consistent_on S c'"
  shows "consistent_on S c"
proof -
  have eq: "c x y = c' x y" if "x \<in> S" "y \<in> S" for x y
    using assms(1) that by blast
  show ?thesis
    unfolding consistent_on_def
  proof (intro conjI ballI impI)
    fix x y
    assume m: "x \<in> S" "y \<in> S"
    from consistent_on_sgn [OF assms(2) m] show "sgn (c y x) = - sgn (c x y)"
      by (simp only: eq [OF m] eq [OF m(2,1)])
  next
    fix x y z
    assume m: "x \<in> S" "y \<in> S" "z \<in> S" and le: "c x y \<le> 0" "c y z \<le> 0"
    from le have "c' x y \<le> 0" "c' y z \<le> 0"
      by (simp_all only: eq [OF m(1,2)] eq [OF m(2,3)])
    from consistent_on_trans [OF assms(2) m this] show "c x z \<le> 0"
      by (simp only: eq [OF m(1,3)])
  qed
qed

subsection \<open>Insertion keeps a list sorted, and commutes with filtering\<close>

lemma insertSorted_front: "\<forall>z \<in> set zs. c x z \<le> 0 \<Longrightarrow> insertSorted c x zs = x # zs"
  by (cases zs) simp_all

lemma sorted_insertSorted:
  assumes c: "consistent_on S c" and "x \<in> S" "set ys \<subseteq> S"
    and "sorted_wrt (\<lambda>a b. c a b \<le> 0) ys"
  shows "sorted_wrt (\<lambda>a b. c a b \<le> 0) (insertSorted c x ys)"
  using assms(2-)
proof (induction ys)
  case Nil
  then show ?case by simp
next
  case (Cons y ys)
  from Cons.prems have mem: "x \<in> S" "y \<in> S" "set ys \<subseteq> S"
    by simp_all
  from Cons.prems have tail: "\<forall>z \<in> set ys. c y z \<le> 0" "sorted_wrt (\<lambda>a b. c a b \<le> 0) ys"
    by simp_all
  show ?case
  proof (cases "c x y \<le> 0")
    case True
    have "c x z \<le> 0" if "z \<in> set ys" for z
      using consistent_on_trans [OF c mem(1,2) _ True] that tail(1) mem(3) by blast
    with True Cons.prems(3) show ?thesis
      by simp
  next
    case False
    with consistent_on_flip [OF c mem(1,2)] have "c y x \<le> 0"
      by simp
    with tail(1) have "\<forall>z \<in> set (insertSorted c x ys). c y z \<le> 0"
      by (simp add: set_insertSorted)
    with False Cons.IH [OF mem(1,3) tail(2)] show ?thesis
      by simp
  qed
qed

lemma set_foldr_insertSorted: "set (foldr (insertSorted c) xs []) = set xs"
  by (induction xs) (simp_all add: set_insertSorted)

lemma sorted_foldr_insertSorted:
  assumes "consistent_on S c" "set xs \<subseteq> S"
  shows "sorted_wrt (\<lambda>a b. c a b \<le> 0) (foldr (insertSorted c) xs [])"
  using assms(2)
proof (induction xs)
  case Nil
  show ?case by simp
next
  case (Cons x xs)
  then have "sorted_wrt (\<lambda>a b. c a b \<le> 0) (foldr (insertSorted c) xs [])"
    and "x \<in> S" and "set (foldr (insertSorted c) xs []) \<subseteq> S"
    by (simp_all add: set_foldr_insertSorted)
  from sorted_insertSorted [OF assms(1) this(2,3,1)] show ?case
    by simp
qed

lemma filter_insertSorted:
  assumes c: "consistent_on S c" and "x \<in> S" "set ys \<subseteq> S"
    and "sorted_wrt (\<lambda>a b. c a b \<le> 0) ys"
  shows "filter P (insertSorted c x ys) =
           (if P x then insertSorted c x (filter P ys) else filter P ys)"
  using assms(2-)
proof (induction ys)
  case Nil
  then show ?case by simp
next
  case (Cons y ys)
  from Cons.prems have mem: "x \<in> S" "y \<in> S" "set ys \<subseteq> S"
    by simp_all
  from Cons.prems have tail: "\<forall>z \<in> set ys. c y z \<le> 0" "sorted_wrt (\<lambda>a b. c a b \<le> 0) ys"
    by simp_all
  show ?case
  proof (cases "c x y \<le> 0")
    case True
    have "c x z \<le> 0" if "z \<in> set ys" for z
      using consistent_on_trans [OF c mem(1,2) _ True] that tail(1) mem(3) by blast
    with True have "\<forall>z \<in> set (filter P (y # ys)). c x z \<le> 0"
      by auto
    then have "insertSorted c x (filter P (y # ys)) = x # filter P (y # ys)"
      by (rule insertSorted_front)
    with True show ?thesis
      by simp
  next
    case False
    with Cons.IH [OF mem(1,3) tail(2)] show ?thesis
      by simp
  qed
qed

lemma filter_foldr_insertSorted:
  assumes "consistent_on S c" "set xs \<subseteq> S"
  shows "filter P (foldr (insertSorted c) xs []) = foldr (insertSorted c) (filter P xs) []"
  using assms(2)
proof (induction xs)
  case Nil
  show ?case by simp
next
  case (Cons x xs)
  then have mem: "x \<in> S" "set (foldr (insertSorted c) xs []) \<subseteq> S"
    and IH: "filter P (foldr (insertSorted c) xs []) = foldr (insertSorted c) (filter P xs) []"
    by (simp_all add: set_foldr_insertSorted)
  from Cons.prems have "set xs \<subseteq> S"
    by simp
  from sorted_foldr_insertSorted [OF assms(1) this]
  have "sorted_wrt (\<lambda>a b. c a b \<le> 0) (foldr (insertSorted c) xs [])" .
  from filter_insertSorted [OF assms(1) mem this, of P] IH show ?case
    by simp
qed

subsection \<open>A sorted arrangement without ties is unique\<close>

lemma sorted_wrt_unique:
  assumes "sorted_wrt R xs" "sorted_wrt R ys" "mset xs = mset ys"
    and "\<forall>a \<in> set xs. \<forall>b \<in> set xs. R a b \<longrightarrow> R b a \<longrightarrow> a = b"
  shows "xs = ys"
  using assms
proof (induction xs arbitrary: ys)
  case Nil
  then show ?case by simp
next
  case (Cons x xs)
  from Cons.prems(3) have "ys \<noteq> []"
    by auto
  then obtain y ys' where ys: "ys = y # ys'"
    by (cases ys) auto
  from Cons.prems(3) have sets: "set (x # xs) = set ys"
    by (metis set_mset_mset)
  have "x = y"
  proof (rule ccontr)
    assume ne: "x \<noteq> y"
    with sets ys have "x \<in> set ys'" "y \<in> set xs"
      by auto
    with Cons.prems(1,2) ys have "R y x" "R x y"
      by auto
    with Cons.prems(4) \<open>y \<in> set xs\<close> have "x = y"
      by auto
    with ne show False by simp
  qed
  with Cons.prems ys have "sorted_wrt R xs" "sorted_wrt R ys'" "mset xs = mset ys'"
    "\<forall>a \<in> set xs. \<forall>b \<in> set xs. R a b \<longrightarrow> R b a \<longrightarrow> a = b"
    by simp_all
  from Cons.IH [OF this] \<open>x = y\<close> ys show ?case
    by simp
qed

subsection \<open>The comparator of the feed\<close>

lemma collation_refl: "collation_ok lc \<Longrightarrow> lc x x = 0"
proof -
  assume "collation_ok lc"
  then have "sgn (lc x x) = - sgn (lc x x)"
    unfolding collation_ok_def by blast
  then show ?thesis
    by (simp add: sgn_if split: if_splits)
qed

lemma SortCompare_layered:
  assumes ok: "collation_ok lc"
    and a: "Date_parse (tx_date a) \<noteq> None" and b: "Date_parse (tx_date b) \<noteq> None"
  shows "SortCompare (compareTx lc ms) a b = layeredCompare lc ms a b"
proof -
  from a b obtain ta tb where p: "Date_parse (tx_date a) = Some ta" "Date_parse (tx_date b) = Some tb"
    by auto
  note unfold = SortCompare_def compareTx_def layeredCompare_def lexc_def timeOf_def
    typeRank_def categoryKey_def nameKey_def Let_def
  show ?thesis
  proof (cases "tx_type a")
    case income
    note ia = this
    show ?thesis
    proof (cases "tx_type b")
      case income
      with ia p show ?thesis by (simp add: unfold)
    next
      case expense
      with ia p show ?thesis by (simp add: unfold)
    qed
  next
    case expense
    note ea = this
    show ?thesis
    proof (cases "tx_type b")
      case income
      with ea p show ?thesis by (simp add: unfold)
    next
      case expense
      with ea p collation_refl [OF ok, of "[]"] show ?thesis by (simp add: unfold)
    qed
  qed
qed

lemma consistent_layered: "collation_ok lc \<Longrightarrow> consistent_on S (layeredCompare lc ms)"
  unfolding layeredCompare_def
  by (intro consistent_on_lexc consistent_on_key consistent_on_collation)

lemma consistent_compareTx:
  assumes "collation_ok lc" and "\<forall>t \<in> S. Date_parse (tx_date t) \<noteq> None"
  shows "consistent_on S (SortCompare (compareTx lc ms))"
proof (rule consistent_on_cong)
  show "\<forall>x \<in> S. \<forall>y \<in> S. SortCompare (compareTx lc ms) x y = layeredCompare lc ms x y"
    using assms by (simp add: SortCompare_layered)
  show "consistent_on S (layeredCompare lc ms)"
    using assms(1) by (rule consistent_layered)
qed

lemma compare_zero_same_id:
  assumes "collation_ok lc" "Date_parse (tx_date a) \<noteq> None" "Date_parse (tx_date b) \<noteq> None"
    and "SortCompare (compareTx lc ms) a b = 0"
  shows "tx_id a = tx_id b"
proof -
  from assms have "layeredCompare lc ms a b = 0"
    by (simp add: SortCompare_layered)
  then show ?thesis
    by (simp add: layeredCompare_def lexc_def split: if_splits)
qed

lemma Array_sort_filter:
  assumes "collation_ok lc" and "\<forall>t \<in> set txs. Date_parse (tx_date t) \<noteq> None"
  shows "Array_sort (compareTx lc ms) (filter P txs) = filter P (Array_sort (compareTx lc ms) txs)"
  using filter_foldr_insertSorted [OF consistent_compareTx [OF assms, of ms] subset_refl, of P]
  by (simp add: Array_sort_def)

lemma Array_sort_unique:
  assumes ok: "collation_ok lc" and valid: "\<forall>t \<in> set txs. Date_parse (tx_date t) \<noteq> None"
    and ids: "distinct (map tx_id txs)" and perm: "mset txs' = mset txs"
  shows "Array_sort (compareTx lc ms) txs' = Array_sort (compareTx lc ms) txs"
proof -
  let ?c = "SortCompare (compareTx lc ms)"
  from perm have sets: "set txs' = set txs"
    by (metis set_mset_mset)
  note cons = consistent_compareTx [OF ok valid, of ms]
  have s1: "sorted_wrt (\<lambda>a b. ?c a b \<le> 0) (Array_sort (compareTx lc ms) txs)"
    using sorted_foldr_insertSorted [OF cons subset_refl] by (simp add: Array_sort_def)
  have s2: "sorted_wrt (\<lambda>a b. ?c a b \<le> 0) (Array_sort (compareTx lc ms) txs')"
    using sorted_foldr_insertSorted [OF cons, of txs'] sets by (simp add: Array_sort_def)
  have inj: "inj_on tx_id (set txs)"
    using ids by (simp add: distinct_map)
  have anti: "a = b" if "a \<in> set txs" "b \<in> set txs" "?c a b \<le> 0" "?c b a \<le> 0" for a b
  proof -
    from consistent_on_flip [OF cons that(1,2)] that(3,4) have "?c a b = 0"
      by linarith
    with compare_zero_same_id [OF ok] valid that(1,2) have "tx_id a = tx_id b"
      by blast
    with inj that(1,2) show ?thesis
      by (simp add: inj_on_eq_iff)
  qed
  have set_sorted: "set (Array_sort (compareTx lc ms) txs') = set txs"
    using sets by (simp add: Array_sort_def set_foldr_insertSorted)
  show ?thesis
  proof (rule sorted_wrt_unique [OF s2 s1])
    show "mset (Array_sort (compareTx lc ms) txs') = mset (Array_sort (compareTx lc ms) txs)"
      by (simp add: mset_Array_sort perm)
    show "\<forall>a \<in> set (Array_sort (compareTx lc ms) txs').
            \<forall>b \<in> set (Array_sort (compareTx lc ms) txs').
              ?c a b \<le> 0 \<longrightarrow> ?c b a \<le> 0 \<longrightarrow> a = b"
      unfolding set_sorted using anti by blast
  qed
qed

lemma collation_ok_codeUnitCompare: "collation_ok codeUnitCompare"
  unfolding collation_ok_def
proof (intro conjI allI impI)
  fix x y :: jsstring
  show "sgn (codeUnitCompare y x) = - sgn (codeUnitCompare x y)"
    by (cases x y rule: linorder_cases) (simp_all add: codeUnitCompare_def)
next
  fix x y z :: jsstring
  assume "codeUnitCompare x y \<le> 0" "codeUnitCompare y z \<le> 0"
  then have "x \<le> y" "y \<le> z"
    by (simp_all add: codeUnitCompare_def split: if_splits)
  then have "x \<le> z"
    by (rule order_trans)
  then show "codeUnitCompare x z \<le> 0"
    by (simp add: codeUnitCompare_def)
qed


section \<open>Determinism of the feed\<close>

text \<open>
  C7. With a consistent host collation, dates that parse and unique ids, the comparator
  gives 0 only for an entry and itself, and it is consistent on the entries (swapping
  the arguments flips the sign, "not after" is transitive), so it orders them totally;
  hence the feed, in order and in balances, is the same for every arrangement of the
  same entries, and two invocations on the same inputs agree element for element.
\<close>

theorem feed_deterministic:
  assumes "collation_ok lc" and "\<forall>t \<in> set txs. Date_parse (tx_date t) \<noteq> None"
    and "distinct (map tx_id txs)"
  shows "(\<forall>a \<in> set txs. \<forall>b \<in> set txs. SortCompare (compareTx lc ms) a b = 0 \<longrightarrow> a = b)
    \<and> consistent_on (set txs) (SortCompare (compareTx lc ms))
    \<and> (\<forall>a \<in> set txs. \<forall>b \<in> set txs.
          SortCompare (compareTx lc ms) a b \<le> 0 \<or> SortCompare (compareTx lc ms) b a \<le> 0)
    \<and> (\<forall>txs'. mset txs' = mset txs \<longrightarrow> withBalance lc ms txs' = withBalance lc ms txs)"
proof -
  note cons = consistent_compareTx [OF assms(1,2), of ms]
  have inj: "inj_on tx_id (set txs)"
    using assms(3) by (simp add: distinct_map)
  have ties: "a = b" if "a \<in> set txs" "b \<in> set txs" "SortCompare (compareTx lc ms) a b = 0" for a b
  proof -
    from compare_zero_same_id [OF assms(1) _ _ that(3)] assms(2) that(1,2)
    have "tx_id a = tx_id b"
      by blast
    with inj that(1,2) show ?thesis
      by (simp add: inj_on_eq_iff)
  qed
  have total: "SortCompare (compareTx lc ms) a b \<le> 0 \<or> SortCompare (compareTx lc ms) b a \<le> 0"
    if "a \<in> set txs" "b \<in> set txs" for a b
    using consistent_on_flip [OF cons that] by linarith
  have same: "withBalance lc ms txs' = withBalance lc ms txs" if "mset txs' = mset txs" for txs'
    using Array_sort_unique [OF assms that, of ms] by (simp add: withBalance_def)
  from ties cons total same show ?thesis
    by blast
qed

theorem feed_deterministic_witness:
  "collation_ok codeUnitCompare
   \<and> list_all (\<lambda>t. Date_parse (tx_date t) \<noteq> None) exLedger
   \<and> distinct (map tx_id exLedger)
   \<and> mset (rev exLedger) = mset exLedger
   \<and> withBalance codeUnitCompare exMembers (rev exLedger) =
       withBalance codeUnitCompare exMembers exLedger
   \<and> (SortCompare (compareTx codeUnitCompare exMembers) (exLedger ! 0) (exLedger ! 1) \<le> 0
        \<or> SortCompare (compareTx codeUnitCompare exMembers) (exLedger ! 1) (exLedger ! 0) \<le> 0)"
proof -
  have valid: "\<forall>t \<in> set exLedger. Date_parse (tx_date t) \<noteq> None"
    using exLedger_valid by (simp add: list_all_iff)
  have ids: "distinct (map tx_id exLedger)"
    by (simp add: exLedger_def mkTx_def)
  have perm: "mset (rev exLedger) = mset exLedger"
    by simp
  have mem: "exLedger ! 0 \<in> set exLedger" "exLedger ! 1 \<in> set exLedger"
    by (simp_all add: exLedger_def)
  note inst = feed_deterministic [OF collation_ok_codeUnitCompare valid ids, of exMembers]
  from inst perm have same: "withBalance codeUnitCompare exMembers (rev exLedger) =
       withBalance codeUnitCompare exMembers exLedger"
    by blast
  from inst mem have total:
    "SortCompare (compareTx codeUnitCompare exMembers) (exLedger ! 0) (exLedger ! 1) \<le> 0
     \<or> SortCompare (compareTx codeUnitCompare exMembers) (exLedger ! 1) (exLedger ! 0) \<le> 0"
    by blast
  from collation_ok_codeUnitCompare exLedger_valid ids perm same total show ?thesis
    by blast
qed

section \<open>Entries with a non-positive amount\<close>

lemma amount_spread: "tx_amount (spreadWithBalance tx b) = tx_amount tx"
  by (simp add: spreadWithBalance_def Transaction.defs)

lemma attachBalance_filter_zero:
  "attachBalance rb (filter (\<lambda>t. tx_amount t \<noteq> 0) xs) =
     filter (\<lambda>r. tx_amount r \<noteq> 0) (attachBalance rb xs)"
proof (induction xs arbitrary: rb)
  case Nil
  show ?case by simp
next
  case (Cons x xs)
  show ?case
  proof (cases "tx_amount x = 0")
    case True
    with Cons.IH [of rb] show ?thesis
      by (simp add: Let_def amount_spread)
  next
    case False
    with Cons.IH [of "rb + (if tx_type x = income then tx_amount x else - tx_amount x)"]
    show ?thesis
      by (simp add: Let_def amount_spread)
  qed
qed

lemma sum_amount_drop_zero:
  "sum_list (map tx_amount (filter (\<lambda>t. P t \<and> tx_amount t \<noteq> 0) xs)) =
     sum_list (map tx_amount (filter P xs))"
  by (induction xs) simp_all

lemma balance_attachBalance_step:
  assumes "i < length xs"
  shows "balance (attachBalance rb xs ! i) =
     (if i = 0 then rb else balance (attachBalance rb xs ! (i - 1))) + signedAmount (xs ! i)"
proof -
  have cur: "balance (attachBalance rb xs ! i) =
      rb + sum_list (map signedAmount (take i xs)) + signedAmount (xs ! i)"
    using balance_attachBalance [OF assms, of rb] assms
    by (simp add: take_Suc_conv_app_nth)
  show ?thesis
  proof (cases i)
    case 0
    with cur show ?thesis by simp
  next
    case (Suc j)
    with assms have "j < length xs" by simp
    from balance_attachBalance [OF this, of rb] cur Suc show ?thesis
      by simp
  qed
qed

text \<open>
  C3, as the source has it. An entry with amount zero contributes nothing to the
  running balance. For every entry list, read in chronological order: the balance
  attached to an entry with amount zero is the balance of the entry before it (0 when it
  is the first), and the balance attached to any entry is the sum of the income amounts
  minus the sum of the expense amounts of the entries with a non-zero amount up to and
  including it. When moreover the host collation is consistent and every date parses,
  the feed of the ledger without its zero-amount entries is the feed of the whole
  ledger with those entries left out, so every other entry keeps its place and its
  balance. (An entry with a negative amount is not neutralised; see the counterexample.)
\<close>

theorem zero_amount_is_noop:
  "(\<forall>i < length txs. tx_amount (Array_sort (compareTx lc ms) txs ! i) = 0 \<longrightarrow>
        balance (rev (withBalance lc ms txs) ! i) =
          (if i = 0 then 0 else balance (rev (withBalance lc ms txs) ! (i - 1))))
   \<and> (\<forall>i < length txs.
        balance (rev (withBalance lc ms txs) ! i) =
          sum_list (map tx_amount (filter (\<lambda>t. tx_type t = income \<and> tx_amount t \<noteq> 0)
                      (take (Suc i) (Array_sort (compareTx lc ms) txs))))
          - sum_list (map tx_amount (filter (\<lambda>t. tx_type t = expense \<and> tx_amount t \<noteq> 0)
                      (take (Suc i) (Array_sort (compareTx lc ms) txs)))))
   \<and> (collation_ok lc \<and> (\<forall>t \<in> set txs. Date_parse (tx_date t) \<noteq> None) \<longrightarrow>
        withBalance lc ms (filter (\<lambda>t. tx_amount t \<noteq> 0) txs) =
          filter (\<lambda>r. tx_amount r \<noteq> 0) (withBalance lc ms txs))"
proof -
  let ?s = "Array_sort (compareTx lc ms) txs"
  have same_as_before: "balance (rev (withBalance lc ms txs) ! i) =
      (if i = 0 then 0 else balance (rev (withBalance lc ms txs) ! (i - 1)))"
    if "i < length txs" "tx_amount (?s ! i) = 0" for i
  proof -
    from that(1) have "i < length ?s" by (simp add: length_Array_sort)
    moreover from that(2) have "signedAmount (?s ! i) = 0"
      by (simp add: signedAmount_def)
    ultimately show ?thesis
      using balance_attachBalance_step [of i ?s 0] by (simp add: rev_withBalance)
  qed
  have prefix: "balance (rev (withBalance lc ms txs) ! i) =
      sum_list (map tx_amount (filter (\<lambda>t. tx_type t = income \<and> tx_amount t \<noteq> 0) (take (Suc i) ?s)))
      - sum_list (map tx_amount (filter (\<lambda>t. tx_type t = expense \<and> tx_amount t \<noteq> 0) (take (Suc i) ?s)))"
    if "i < length txs" for i
  proof -
    from that have "i < length ?s" by (simp add: length_Array_sort)
    from balance_attachBalance [OF this, of 0]
    have "balance (rev (withBalance lc ms txs) ! i) = sum_list (map signedAmount (take (Suc i) ?s))"
      by (simp add: rev_withBalance)
    then show ?thesis
      by (simp only: sum_signed sum_amount_drop_zero)
  qed
  have absent: "withBalance lc ms (filter (\<lambda>t. tx_amount t \<noteq> 0) txs) =
      filter (\<lambda>r. tx_amount r \<noteq> 0) (withBalance lc ms txs)"
    if ok: "collation_ok lc" and valid: "\<forall>t \<in> set txs. Date_parse (tx_date t) \<noteq> None"
  proof -
    have "withBalance lc ms (filter (\<lambda>t. tx_amount t \<noteq> 0) txs) =
        rev (attachBalance 0 (filter (\<lambda>t. tx_amount t \<noteq> 0) ?s))"
      by (simp only: withBalance_def Array_sort_filter [OF ok valid])
    also have "\<dots> = rev (filter (\<lambda>r. tx_amount r \<noteq> 0) (attachBalance 0 ?s))"
      by (simp only: attachBalance_filter_zero)
    also have "\<dots> = filter (\<lambda>r. tx_amount r \<noteq> 0) (withBalance lc ms txs)"
      by (simp only: withBalance_def rev_filter)
    finally show ?thesis .
  qed
  from same_as_before prefix absent show ?thesis
    by blast
qed

lemma ex_pair_sorted:
  "Array_sort (compareTx codeUnitCompare exMembers) [exZero, exRegular] = [exZero, exRegular]"
  "Array_sort (compareTx codeUnitCompare exMembers) [exNegative, exRegular] = [exNegative, exRegular]"
  "Array_sort (compareTx codeUnitCompare exMembers) [exRegular] = [exRegular]"
  by (simp_all add: Array_sort_def SortCompare_def compareTx_def exZero_def exNegative_def
      exRegular_def mkTx_def parse_examples)

text \<open>
  An income of 0 dated a day before an income of 10: the zero entry comes first and has
  the balance 0, the other entry has the balance 10, with or without the zero entry.
\<close>

theorem zero_amount_is_noop_witness:
  "collation_ok codeUnitCompare
   \<and> list_all (\<lambda>t. Date_parse (tx_date t) \<noteq> None) [exZero, exRegular]
   \<and> tx_amount exZero = 0
   \<and> Array_sort (compareTx codeUnitCompare exMembers) [exZero, exRegular] ! 0 = exZero
   \<and> balance (rev (withBalance codeUnitCompare exMembers [exZero, exRegular]) ! 0) = 0
   \<and> balance (rev (withBalance codeUnitCompare exMembers [exZero, exRegular]) ! 1) = 10
   \<and> filter (\<lambda>r. tx_amount r \<noteq> 0) (withBalance codeUnitCompare exMembers [exZero, exRegular]) =
       withBalance codeUnitCompare exMembers [exRegular]
   \<and> map balance (withBalance codeUnitCompare exMembers [exRegular]) = [10]"
proof -
  note inst = zero_amount_is_noop [of "[exZero, exRegular]" codeUnitCompare exMembers]
  have valid: "list_all (\<lambda>t. Date_parse (tx_date t) \<noteq> None) [exZero, exRegular]"
    by (simp add: exZero_def exRegular_def mkTx_def parse_examples)
  then have valid': "\<forall>t \<in> set [exZero, exRegular]. Date_parse (tx_date t) \<noteq> None"
    by (simp add: list_all_iff)
  have zero: "tx_amount exZero = 0" and pos: "tx_amount exRegular \<noteq> 0"
    by (simp_all add: exZero_def exRegular_def mkTx_def)
  have first: "Array_sort (compareTx codeUnitCompare exMembers) [exZero, exRegular] ! 0 = exZero"
    by (simp add: ex_pair_sorted)
  from zero pos have kept: "filter (\<lambda>t. tx_amount t \<noteq> 0) [exZero, exRegular] = [exRegular]"
    by simp
  from inst first zero
  have b0: "balance (rev (withBalance codeUnitCompare exMembers [exZero, exRegular]) ! 0) = 0"
    by simp
  have sums: "sum_list (map tx_amount (filter (\<lambda>t. tx_type t = income \<and> tx_amount t \<noteq> 0)
                  (take (Suc 1) [exZero, exRegular])))
      - sum_list (map tx_amount (filter (\<lambda>t. tx_type t = expense \<and> tx_amount t \<noteq> 0)
                  (take (Suc 1) [exZero, exRegular]))) = 10"
    by (simp add: exZero_def exRegular_def mkTx_def)
  from inst have "balance (rev (withBalance codeUnitCompare exMembers [exZero, exRegular]) ! 1) =
      sum_list (map tx_amount (filter (\<lambda>t. tx_type t = income \<and> tx_amount t \<noteq> 0)
                  (take (Suc 1) [exZero, exRegular])))
      - sum_list (map tx_amount (filter (\<lambda>t. tx_type t = expense \<and> tx_amount t \<noteq> 0)
                  (take (Suc 1) [exZero, exRegular])))"
    unfolding ex_pair_sorted by simp
  then have b1: "balance (rev (withBalance codeUnitCompare exMembers [exZero, exRegular]) ! 1) = 10"
    by (simp only: sums)
  from inst collation_ok_codeUnitCompare valid'
  have "withBalance codeUnitCompare exMembers (filter (\<lambda>t. tx_amount t \<noteq> 0) [exZero, exRegular]) =
       filter (\<lambda>r. tx_amount r \<noteq> 0) (withBalance codeUnitCompare exMembers [exZero, exRegular])"
    by blast
  then have same: "filter (\<lambda>r. tx_amount r \<noteq> 0) (withBalance codeUnitCompare exMembers [exZero, exRegular]) =
       withBalance codeUnitCompare exMembers [exRegular]"
    by (simp only: kept)
  have one: "map balance (withBalance codeUnitCompare exMembers [exRegular]) = [10]"
    unfolding withBalance_def ex_pair_sorted
    by (simp add: Let_def balance_spread exRegular_def mkTx_def)
  from collation_ok_codeUnitCompare valid zero first b0 b1 same one show ?thesis
    by blast
qed

text \<open>
  The two conditions of the last part are needed. With an entry whose date does not
  parse the comparator is not consistent, and leaving out a zero-amount entry can change
  the order of the others: of an income of 10 dated 2024-01-09, an income of 0 without
  a date and an income of 5 dated 2024-01-07, in this order, the first is sorted before
  the last; without the middle one it is sorted after it.
\<close>

lemma zero_amount_without_date:
  "map tx_id (Array_sort (compareTx lc ms)
      [mkTx 301 income (js ''2024-01-09'') SIBILJO 10 None, mkTx 302 income [] SIBILJO 0 None,
       mkTx 303 income (js ''2024-01-07'') SIBILJO 5 None]) = [301, 302, 303]"
  "map tx_id (Array_sort (compareTx lc ms)
      [mkTx 301 income (js ''2024-01-09'') SIBILJO 10 None,
       mkTx 303 income (js ''2024-01-07'') SIBILJO 5 None]) = [303, 301]"
proof -
  have p: "Date_parse (js ''2024-01-09'') = Some 1704758400000" "Date_parse [] = None"
    by code_simp+
  show "map tx_id (Array_sort (compareTx lc ms)
      [mkTx 301 income (js ''2024-01-09'') SIBILJO 10 None, mkTx 302 income [] SIBILJO 0 None,
       mkTx 303 income (js ''2024-01-07'') SIBILJO 5 None]) = [301, 302, 303]"
    by (simp add: Array_sort_def SortCompare_def compareTx_def mkTx_def p parse_examples)
  show "map tx_id (Array_sort (compareTx lc ms)
      [mkTx 301 income (js ''2024-01-09'') SIBILJO 10 None,
       mkTx 303 income (js ''2024-01-07'') SIBILJO 5 None]) = [303, 301]"
    by (simp add: Array_sort_def SortCompare_def compareTx_def mkTx_def p parse_examples)
qed

text \<open>
  An income entry with amount -5, dated a day before a regular income of 10: the regular
  entry gets the balance 5, and would get 10 were the other entry absent.
\<close>

theorem negative_amount_counterexample:
  "tx_amount exNegative \<le> 0
   \<and> map balance (withBalance codeUnitCompare exMembers [exNegative, exRegular]) = [5, - 5]
   \<and> map Transaction.truncate (withBalance codeUnitCompare exMembers [exNegative, exRegular]) =
       [exRegular, exNegative]
   \<and> map balance (withBalance codeUnitCompare exMembers [exRegular]) = [10]"
proof -
  have neg: "tx_amount exNegative \<le> 0"
    by (simp add: exNegative_def mkTx_def)
  have both: "map balance (withBalance codeUnitCompare exMembers [exNegative, exRegular]) = [5, - 5]"
    unfolding withBalance_def ex_pair_sorted
    by (simp add: Let_def balance_spread exNegative_def exRegular_def mkTx_def)
  have order: "map Transaction.truncate (withBalance codeUnitCompare exMembers [exNegative, exRegular]) =
       [exRegular, exNegative]"
    unfolding withBalance_def ex_pair_sorted
    by (simp add: Let_def truncate_spread)
  have one: "map balance (withBalance codeUnitCompare exMembers [exRegular]) = [10]"
    unfolding withBalance_def ex_pair_sorted
    by (simp add: Let_def balance_spread exRegular_def mkTx_def)
  from neg both order one show ?thesis
    by blast
qed

end
